theory Spec2Isabelle
  imports Main "HOL-Library.Word" "HOL-Library.Sublist"
begin

unbundle bit_operations_syntax

section \<open>JavaScript values used by \<open>src/utils/crypto.ts\<close>\<close>

text \<open>
  A JavaScript string is a sequence of UTF-16 code units; a \<open>Buffer\<close> is a sequence of
  bytes. String literals of the source are written with \<open>js\<close>; all of them are ASCII.
\<close>

type_synonym byte = "8 word"
type_synonym jschar = "16 word"
type_synonym jsstring = "jschar list"

definition js :: "string \<Rightarrow> jsstring" where
  "js s = map (\<lambda>c. of_nat (of_char c)) s"

text \<open>\<open>Buffer.from(s, 'utf8')\<close> for an ASCII literal \<open>s\<close>: one byte per character.\<close>

definition ascii_bytes :: "string \<Rightarrow> byte list" where
  "ascii_bytes s = map (\<lambda>c. of_nat (of_char c)) s"

text \<open>\<open>s[0]\<close>: the first code unit, or \<open>undefined\<close> (here \<open>None\<close>) for the empty string.\<close>

definition char_at0 :: "jsstring \<Rightarrow> jschar option" where
  "char_at0 s = (case s of [] \<Rightarrow> None | c # _ \<Rightarrow> Some c)"

text \<open>
  \<open>parseInt(v, 10)\<close> where \<open>v\<close> is \<open>undefined\<close> or a string of one code unit: the number
  of an ASCII decimal digit, and \<open>NaN\<close> (here \<open>None\<close>) for everything else: for
  \<open>undefined\<close> (read as the text "undefined"), for a sign or a white space character
  alone, and for any other code unit.
\<close>

definition parseInt10 :: "jschar option \<Rightarrow> nat option" where
  "parseInt10 v =
     (case v of
        None \<Rightarrow> None
      | Some c \<Rightarrow> if 0x30 \<le> c \<and> c \<le> 0x39 then Some (unat c - 48) else None)"

text \<open>\<open>s.substring(start)\<close>: a start below 0 counts as 0, one beyond the end as the length.\<close>

definition substring_from :: "jsstring \<Rightarrow> int \<Rightarrow> jsstring" where
  "substring_from s start = drop (nat start) s"

text \<open>\<open>s.indexOf(pat)\<close>: the first position where \<open>pat\<close> starts, or \<open>-1\<close>.\<close>

fun indexOf :: "jsstring \<Rightarrow> jsstring \<Rightarrow> int" where
  "indexOf [] pat = (if pat = [] then 0 else -1)"
| "indexOf (c # cs) pat =
     (if take (length pat) (c # cs) = pat then 0
      else (let i = indexOf cs pat in if i < 0 then -1 else i + 1))"

definition includes_str :: "jsstring \<Rightarrow> jsstring \<Rightarrow> bool" where
  "includes_str s pat = (0 \<le> indexOf s pat)"

text \<open>
  \<open>s.trim()\<close> removes white space and line terminators from both ends:
  TAB, LF, VT, FF, CR, SP, NBSP, U+1680, U+2000 to U+200A, U+2028, U+2029, U+202F,
  U+205F, U+3000 and U+FEFF.
\<close>

definition is_js_whitespace :: "jschar \<Rightarrow> bool" where
  "is_js_whitespace c =
     (c \<in> set [0x09, 0x0A, 0x0B, 0x0C, 0x0D, 0x20, 0xA0, 0x1680, 0x2028, 0x2029,
                0x202F, 0x205F, 0x3000, 0xFEFF]
      \<or> (0x2000 \<le> c \<and> c \<le> 0x200A))"

definition js_trim :: "jsstring \<Rightarrow> jsstring" where
  "js_trim s = rev (dropWhile is_js_whitespace (rev (dropWhile is_js_whitespace s)))"

section \<open>\<open>Buffer.from(s, 'base64')\<close>\<close>

text \<open>
  Node's base64 decoder never fails. It reads each code unit through a cast to a byte,
  accepts the standard and the URL-safe alphabet, skips every other character and stops
  at the first \<open>=\<close>. Four symbols give three bytes; two trailing symbols give one byte,
  three give two, and a single trailing symbol gives none.
\<close>

definition unbase64 :: "byte \<Rightarrow> byte option" where
  "unbase64 c =
     (if 0x41 \<le> c \<and> c \<le> 0x5A then Some (c - 0x41)
      else if 0x61 \<le> c \<and> c \<le> 0x7A then Some (c - 0x61 + 26)
      else if 0x30 \<le> c \<and> c \<le> 0x39 then Some (c - 0x30 + 52)
      else if c = 0x2B \<or> c = 0x2D then Some 62
      else if c = 0x2F \<or> c = 0x5F then Some 63
      else None)"

fun base64_symbols :: "jsstring \<Rightarrow> byte list" where
  "base64_symbols [] = []"
| "base64_symbols (c # cs) =
     (case unbase64 (ucast c) of
        Some v \<Rightarrow> v # base64_symbols cs
      | None \<Rightarrow> if (ucast c :: byte) = 0x3D then [] else base64_symbols cs)"

fun base64_groups :: "byte list \<Rightarrow> byte list" where
  "base64_groups (a # b # c # d # rest) =
     (push_bit 2 a OR drop_bit 4 b) # (push_bit 4 (b AND 0x0F) OR drop_bit 2 c)
       # (push_bit 6 (c AND 0x03) OR d) # base64_groups rest"
| "base64_groups [a, b, c] =
     [push_bit 2 a OR drop_bit 4 b, push_bit 4 (b AND 0x0F) OR drop_bit 2 c]"
| "base64_groups [a, b] = [push_bit 2 a OR drop_bit 4 b]"
| "base64_groups _ = []"

definition base64_decode :: "jsstring \<Rightarrow> byte list" where
  "base64_decode s = base64_groups (base64_symbols s)"

section \<open>AES-128 in CBC mode: \<open>createDecipheriv('aes-128-cbc', KEY, IV)\<close>\<close>

text \<open>
  The inverse cipher of FIPS 197 on a block of 16 bytes, the state kept in the order of
  the input bytes (column by column).
\<close>

definition sbox_table :: "byte list" where
  "sbox_table = [
     0x63, 0x7c, 0x77, 0x7b, 0xf2, 0x6b, 0x6f, 0xc5, 0x30, 0x01, 0x67, 0x2b, 0xfe, 0xd7, 0xab, 0x76,
     0xca, 0x82, 0xc9, 0x7d, 0xfa, 0x59, 0x47, 0xf0, 0xad, 0xd4, 0xa2, 0xaf, 0x9c, 0xa4, 0x72, 0xc0,
     0xb7, 0xfd, 0x93, 0x26, 0x36, 0x3f, 0xf7, 0xcc, 0x34, 0xa5, 0xe5, 0xf1, 0x71, 0xd8, 0x31, 0x15,
     0x04, 0xc7, 0x23, 0xc3, 0x18, 0x96, 0x05, 0x9a, 0x07, 0x12, 0x80, 0xe2, 0xeb, 0x27, 0xb2, 0x75,
     0x09, 0x83, 0x2c, 0x1a, 0x1b, 0x6e, 0x5a, 0xa0, 0x52, 0x3b, 0xd6, 0xb3, 0x29, 0xe3, 0x2f, 0x84,
     0x53, 0xd1, 0x00, 0xed, 0x20, 0xfc, 0xb1, 0x5b, 0x6a, 0xcb, 0xbe, 0x39, 0x4a, 0x4c, 0x58, 0xcf,
     0xd0, 0xef, 0xaa, 0xfb, 0x43, 0x4d, 0x33, 0x85, 0x45, 0xf9, 0x02, 0x7f, 0x50, 0x3c, 0x9f, 0xa8,
     0x51, 0xa3, 0x40, 0x8f, 0x92, 0x9d, 0x38, 0xf5, 0xbc, 0xb6, 0xda, 0x21, 0x10, 0xff, 0xf3, 0xd2,
     0xcd, 0x0c, 0x13, 0xec, 0x5f, 0x97, 0x44, 0x17, 0xc4, 0xa7, 0x7e, 0x3d, 0x64, 0x5d, 0x19, 0x73,
     0x60, 0x81, 0x4f, 0xdc, 0x22, 0x2a, 0x90, 0x88, 0x46, 0xee, 0xb8, 0x14, 0xde, 0x5e, 0x0b, 0xdb,
     0xe0, 0x32, 0x3a, 0x0a, 0x49, 0x06, 0x24, 0x5c, 0xc2, 0xd3, 0xac, 0x62, 0x91, 0x95, 0xe4, 0x79,
     0xe7, 0xc8, 0x37, 0x6d, 0x8d, 0xd5, 0x4e, 0xa9, 0x6c, 0x56, 0xf4, 0xea, 0x65, 0x7a, 0xae, 0x08,
     0xba, 0x78, 0x25, 0x2e, 0x1c, 0xa6, 0xb4, 0xc6, 0xe8, 0xdd, 0x74, 0x1f, 0x4b, 0xbd, 0x8b, 0x8a,
     0x70, 0x3e, 0xb5, 0x66, 0x48, 0x03, 0xf6, 0x0e, 0x61, 0x35, 0x57, 0xb9, 0x86, 0xc1, 0x1d, 0x9e,
     0xe1, 0xf8, 0x98, 0x11, 0x69, 0xd9, 0x8e, 0x94, 0x9b, 0x1e, 0x87, 0xe9, 0xce, 0x55, 0x28, 0xdf,
     0x8c, 0xa1, 0x89, 0x0d, 0xbf, 0xe6, 0x42, 0x68, 0x41, 0x99, 0x2d, 0x0f, 0xb0, 0x54, 0xbb, 0x16]"

definition inv_sbox_table :: "byte list" where
  "inv_sbox_table = [
     0x52, 0x09, 0x6a, 0xd5, 0x30, 0x36, 0xa5, 0x38, 0xbf, 0x40, 0xa3, 0x9e, 0x81, 0xf3, 0xd7, 0xfb,
     0x7c, 0xe3, 0x39, 0x82, 0x9b, 0x2f, 0xff, 0x87, 0x34, 0x8e, 0x43, 0x44, 0xc4, 0xde, 0xe9, 0xcb,
     0x54, 0x7b, 0x94, 0x32, 0xa6, 0xc2, 0x23, 0x3d, 0xee, 0x4c, 0x95, 0x0b, 0x42, 0xfa, 0xc3, 0x4e,
     0x08, 0x2e, 0xa1, 0x66, 0x28, 0xd9, 0x24, 0xb2, 0x76, 0x5b, 0xa2, 0x49, 0x6d, 0x8b, 0xd1, 0x25,
     0x72, 0xf8, 0xf6, 0x64, 0x86, 0x68, 0x98, 0x16, 0xd4, 0xa4, 0x5c, 0xcc, 0x5d, 0x65, 0xb6, 0x92,
     0x6c, 0x70, 0x48, 0x50, 0xfd, 0xed, 0xb9, 0xda, 0x5e, 0x15, 0x46, 0x57, 0xa7, 0x8d, 0x9d, 0x84,
     0x90, 0xd8, 0xab, 0x00, 0x8c, 0xbc, 0xd3, 0x0a, 0xf7, 0xe4, 0x58, 0x05, 0xb8, 0xb3, 0x45, 0x06,
     0xd0, 0x2c, 0x1e, 0x8f, 0xca, 0x3f, 0x0f, 0x02, 0xc1, 0xaf, 0xbd, 0x03, 0x01, 0x13, 0x8a, 0x6b,
     0x3a, 0x91, 0x11, 0x41, 0x4f, 0x67, 0xdc, 0xea, 0x97, 0xf2, 0xcf, 0xce, 0xf0, 0xb4, 0xe6, 0x73,
     0x96, 0xac, 0x74, 0x22, 0xe7, 0xad, 0x35, 0x85, 0xe2, 0xf9, 0x37, 0xe8, 0x1c, 0x75, 0xdf, 0x6e,
     0x47, 0xf1, 0x1a, 0x71, 0x1d, 0x29, 0xc5, 0x89, 0x6f, 0xb7, 0x62, 0x0e, 0xaa, 0x18, 0xbe, 0x1b,
     0xfc, 0x56, 0x3e, 0x4b, 0xc6, 0xd2, 0x79, 0x20, 0x9a, 0xdb, 0xc0, 0xfe, 0x78, 0xcd, 0x5a, 0xf4,
     0x1f, 0xdd, 0xa8, 0x33, 0x88, 0x07, 0xc7, 0x31, 0xb1, 0x12, 0x10, 0x59, 0x27, 0x80, 0xec, 0x5f,
     0x60, 0x51, 0x7f, 0xa9, 0x19, 0xb5, 0x4a, 0x0d, 0x2d, 0xe5, 0x7a, 0x9f, 0x93, 0xc9, 0x9c, 0xef,
     0xa0, 0xe0, 0x3b, 0x4d, 0xae, 0x2a, 0xf5, 0xb0, 0xc8, 0xeb, 0xbb, 0x3c, 0x83, 0x53, 0x99, 0x61,
     0x17, 0x2b, 0x04, 0x7e, 0xba, 0x77, 0xd6, 0x26, 0xe1, 0x69, 0x14, 0x63, 0x55, 0x21, 0x0c, 0x7d]"

definition sub_byte :: "byte \<Rightarrow> byte" where
  "sub_byte b = sbox_table ! unat b"

definition inv_sub_byte :: "byte \<Rightarrow> byte" where
  "inv_sub_byte b = inv_sbox_table ! unat b"

definition xtime :: "byte \<Rightarrow> byte" where
  "xtime b = (if bit b 7 then push_bit 1 b XOR 0x1b else push_bit 1 b)"

definition mul9 :: "byte \<Rightarrow> byte" where
  "mul9 b = xtime (xtime (xtime b)) XOR b"

definition mul11 :: "byte \<Rightarrow> byte" where
  "mul11 b = xtime (xtime (xtime b)) XOR xtime b XOR b"

definition mul13 :: "byte \<Rightarrow> byte" where
  "mul13 b = xtime (xtime (xtime b)) XOR xtime (xtime b) XOR b"

definition mul14 :: "byte \<Rightarrow> byte" where
  "mul14 b = xtime (xtime (xtime b)) XOR xtime (xtime b) XOR xtime b"

definition xor_bytes :: "byte list \<Rightarrow> byte list \<Rightarrow> byte list" where
  "xor_bytes xs ys = map2 (XOR) xs ys"

definition inv_shift_rows :: "byte list \<Rightarrow> byte list" where
  "inv_shift_rows s =
     [s ! 0, s ! 13, s ! 10, s ! 7, s ! 4, s ! 1, s ! 14, s ! 11,
      s ! 8, s ! 5, s ! 2, s ! 15, s ! 12, s ! 9, s ! 6, s ! 3]"

definition inv_mix_column :: "byte \<Rightarrow> byte \<Rightarrow> byte \<Rightarrow> byte \<Rightarrow> byte list" where
  "inv_mix_column a b c d =
     [mul14 a XOR mul11 b XOR mul13 c XOR mul9 d,
      mul9 a XOR mul14 b XOR mul11 c XOR mul13 d,
      mul13 a XOR mul9 b XOR mul14 c XOR mul11 d,
      mul11 a XOR mul13 b XOR mul9 c XOR mul14 d]"

definition inv_mix_columns :: "byte list \<Rightarrow> byte list" where
  "inv_mix_columns s =
     inv_mix_column (s ! 0) (s ! 1) (s ! 2) (s ! 3) @
     inv_mix_column (s ! 4) (s ! 5) (s ! 6) (s ! 7) @
     inv_mix_column (s ! 8) (s ! 9) (s ! 10) (s ! 11) @
     inv_mix_column (s ! 12) (s ! 13) (s ! 14) (s ! 15)"

definition next_round_key :: "byte \<Rightarrow> byte list \<Rightarrow> byte list" where
  "next_round_key rc k =
     (let w0 = xor_bytes (take 4 k)
                 [sub_byte (k ! 13) XOR rc, sub_byte (k ! 14), sub_byte (k ! 15),
                  sub_byte (k ! 12)];
          w1 = xor_bytes (take 4 (drop 4 k)) w0;
          w2 = xor_bytes (take 4 (drop 8 k)) w1;
          w3 = xor_bytes (take 4 (drop 12 k)) w2
      in w0 @ w1 @ w2 @ w3)"

fun expand_key :: "byte list \<Rightarrow> byte list \<Rightarrow> byte list list" where
  "expand_key [] k = [k]"
| "expand_key (rc # rcs) k = k # expand_key rcs (next_round_key rc k)"

definition rcon :: "byte list" where
  "rcon = [0x01, 0x02, 0x04, 0x08, 0x10, 0x20, 0x40, 0x80, 0x1b, 0x36]"

definition inv_round :: "byte list \<Rightarrow> byte list \<Rightarrow> byte list" where
  "inv_round s rk = inv_mix_columns (xor_bytes (map inv_sub_byte (inv_shift_rows s)) rk)"

definition inv_cipher :: "byte list list \<Rightarrow> byte list \<Rightarrow> byte list" where
  "inv_cipher rks c =
     xor_bytes
       (map inv_sub_byte
          (inv_shift_rows
             (foldl inv_round (xor_bytes c (rks ! 10)) (rev (take 9 (drop 1 rks))))))
       (rks ! 0)"

text \<open>CBC: each decrypted block is combined with the previous ciphertext block.\<close>

fun cbc_decrypt :: "byte list list \<Rightarrow> byte list \<Rightarrow> byte list \<Rightarrow> byte list" where
  "cbc_decrypt rks prev ct =
     (if length ct < 16 then []
      else xor_bytes (inv_cipher rks (take 16 ct)) prev
             @ cbc_decrypt rks (take 16 ct) (drop 16 ct))"

declare cbc_decrypt.simps [simp del]

text \<open>The constants of the source.\<close>

definition KEY :: "byte list" where
  "KEY = ascii_bytes ''gy1t#b@jl(b$wtme''"

definition IV :: "byte list" where
  "IV = ascii_bytes ''xC4dmVJAq14BfntX''"

definition HLS_BASE_URL :: jsstring where
  "HLS_BASE_URL = js ''https://vodhlsgaana-ebw.akamaized.net/''"

text \<open>
  The decipher object with \<open>setAutoPadding(false)\<close>: \<open>update\<close> returns the decryption of
  the complete blocks, \<open>final\<close> returns nothing and throws "wrong final block length"
  when the input was not a whole number of blocks.
\<close>

datatype js_error = WrongFinalBlockLength

definition decipher_update :: "byte list \<Rightarrow> byte list" where
  "decipher_update ciphertext = cbc_decrypt (expand_key rcon KEY) IV ciphertext"

definition decipher_final :: "byte list \<Rightarrow> js_error + byte list" where
  "decipher_final ciphertext =
     (if length ciphertext mod 16 \<noteq> 0 then Inl WrongFinalBlockLength else Inr [])"

section \<open>\<open>buf.toString('utf8')\<close>\<close>

text \<open>
  Decoding never fails: every maximal ill-formed part of the input becomes one U+FFFD,
  and a code point above U+FFFF becomes a surrogate pair. The second byte of a sequence
  has a narrower range after the lead bytes E0, ED, F0 and F4.
\<close>

definition in_range :: "byte \<Rightarrow> byte \<Rightarrow> byte \<Rightarrow> bool" where
  "in_range lo hi b = (lo \<le> b \<and> b \<le> hi)"

definition second_lower :: "byte \<Rightarrow> byte" where
  "second_lower b = (if b = 0xE0 then 0xA0 else if b = 0xF0 then 0x90 else 0x80)"

definition second_upper :: "byte \<Rightarrow> byte" where
  "second_upper b = (if b = 0xED then 0x9F else if b = 0xF4 then 0x8F else 0xBF)"

definition code_units :: "nat \<Rightarrow> jsstring" where
  "code_units cp =
     (if cp < 0x10000 then [of_nat cp]
      else [of_nat (0xD800 + (cp - 0x10000) div 0x400),
            of_nat (0xDC00 + (cp - 0x10000) mod 0x400)])"

definition cont_bits :: "byte \<Rightarrow> nat" where
  "cont_bits b = unat b mod 64"

fun utf8_decode :: "byte list \<Rightarrow> jsstring" where
  "utf8_decode [] = []"
| "utf8_decode (b # bs) =
     (if b \<le> 0x7F then ucast b # utf8_decode bs
      else if in_range 0xC2 0xDF b then
        (case bs of
           [] \<Rightarrow> [0xFFFD]
         | c1 # r1 \<Rightarrow>
             if in_range 0x80 0xBF c1
             then code_units (unat b mod 32 * 64 + cont_bits c1) @ utf8_decode r1
             else 0xFFFD # utf8_decode bs)
      else if in_range 0xE0 0xEF b then
        (case bs of
           [] \<Rightarrow> [0xFFFD]
         | c1 # r1 \<Rightarrow>
             if in_range (second_lower b) (second_upper b) c1 then
               (case r1 of
                  [] \<Rightarrow> [0xFFFD]
                | c2 # r2 \<Rightarrow>
                    if in_range 0x80 0xBF c2
                    then code_units (unat b mod 16 * 4096 + cont_bits c1 * 64 + cont_bits c2)
                           @ utf8_decode r2
                    else 0xFFFD # utf8_decode r1)
             else 0xFFFD # utf8_decode bs)
      else if in_range 0xF0 0xF4 b then
        (case bs of
           [] \<Rightarrow> [0xFFFD]
         | c1 # r1 \<Rightarrow>
             if in_range (second_lower b) (second_upper b) c1 then
               (case r1 of
                  [] \<Rightarrow> [0xFFFD]
                | c2 # r2 \<Rightarrow>
                    if in_range 0x80 0xBF c2 then
                      (case r2 of
                         [] \<Rightarrow> [0xFFFD]
                       | c3 # r3 \<Rightarrow>
                           if in_range 0x80 0xBF c3
                           then code_units (unat b mod 8 * 262144 + cont_bits c1 * 4096
                                              + cont_bits c2 * 64 + cont_bits c3)
                                  @ utf8_decode r3
                           else 0xFFFD # utf8_decode r2)
                    else 0xFFFD # utf8_decode r1)
             else 0xFFFD # utf8_decode bs)
      else 0xFFFD # utf8_decode bs)"

section \<open>\<open>decryptStreamPath\<close>\<close>

text \<open>
  The function returns the URL, or the empty string after one of its three warnings:
  \<^item> \<open>InvalidOffset\<close>: "Invalid offset in encrypted data";
  \<^item> \<open>NoHlsPath\<close>: "No /hls/ path found in decrypted text";
  \<^item> \<open>FailedToDecrypt e\<close>: the \<open>catch\<close> branch, "Failed to decrypt stream path:" with the
    message of the error \<open>e\<close> thrown inside the \<open>try\<close> block.
  The result \<open>Inl w\<close> stands for the warning \<open>w\<close> followed by \<open>return ''\<close>.
\<close>

datatype warning = InvalidOffset | NoHlsPath | FailedToDecrypt js_error

text \<open>
  Lines 35 to 38: the text after the framing; the argument \<open>ciphertextB64 + '=='\<close> of
  \<open>Buffer.from\<close>; and the bytes that \<open>Buffer.from\<close> decodes from it.
\<close>

definition ciphertextB64 :: "jsstring \<Rightarrow> nat \<Rightarrow> jsstring" where
  "ciphertextB64 encryptedData offset = substring_from encryptedData (int offset + 16)"

definition paddedB64 :: "jsstring \<Rightarrow> nat \<Rightarrow> jsstring" where
  "paddedB64 encryptedData offset = ciphertextB64 encryptedData offset @ js ''==''"

definition ciphertext_of :: "jsstring \<Rightarrow> nat \<Rightarrow> byte list" where
  "ciphertext_of encryptedData offset = base64_decode (paddedB64 encryptedData offset)"

text \<open>Lines 41 to 45: \<open>update\<close>, then \<open>final\<close>, which may throw.\<close>

definition decrypt_bytes :: "byte list \<Rightarrow> js_error + byte list" where
  "decrypt_bytes ciphertext =
     (let decrypted = decipher_update ciphertext
      in case decipher_final ciphertext of
           Inl e \<Rightarrow> Inl e
         | Inr fin \<Rightarrow> Inr (decrypted @ fin))"

text \<open>Lines 48 to 55: null characters removed, trimmed, printable ASCII kept.\<close>

definition printable :: "jschar \<Rightarrow> bool" where
  "printable c = (32 \<le> unat c \<and> unat c \<le> 126)"

definition clean_text :: "jsstring \<Rightarrow> jsstring" where
  "clean_text text = filter printable (js_trim (filter (\<lambda>c. c \<noteq> 0) text))"

text \<open>Lines 58 to 65: the guard is on \<open>/hls/\<close>, the path starts at the first \<open>hls/\<close>.\<close>

definition extract_hls :: "jsstring \<Rightarrow> warning + jsstring" where
  "extract_hls rawText =
     (if includes_str rawText (js ''/hls/'')
      then (let pathStart = indexOf rawText (js ''hls/'');
                cleanPath = substring_from rawText pathStart
            in Inr (HLS_BASE_URL @ cleanPath))
      else Inl NoHlsPath)"

definition decryptStreamPath :: "jsstring \<Rightarrow> warning + jsstring" where
  "decryptStreamPath encryptedData =
     (case parseInt10 (char_at0 encryptedData) of
        None \<Rightarrow> Inl InvalidOffset
      | Some offset \<Rightarrow>
          (case decrypt_bytes (ciphertext_of encryptedData offset) of
             Inl e \<Rightarrow> Inl (FailedToDecrypt e)
           | Inr decrypted \<Rightarrow> extract_hls (clean_text (utf8_decode decrypted))))"

text \<open>The JavaScript value that the caller receives.\<close>

definition returned :: "warning + jsstring \<Rightarrow> jsstring" where
  "returned r = (case r of Inl _ \<Rightarrow> [] | Inr url \<Rightarrow> url)"

text \<open>
  The sanitized text that \<open>decryptStreamPath\<close> computes for an input, when it gets that
  far.
\<close>

definition sanitized_text :: "jsstring \<Rightarrow> jsstring option" where
  "sanitized_text encryptedData =
     (case parseInt10 (char_at0 encryptedData) of
        None \<Rightarrow> None
      | Some offset \<Rightarrow>
          (case decrypt_bytes (ciphertext_of encryptedData offset) of
             Inl e \<Rightarrow> None
           | Inr decrypted \<Rightarrow> Some (clean_text (utf8_decode decrypted))))"

subsection \<open>The failure kinds of the design\<close>

text \<open>
  The design names six kinds of failure of the decoder. The source tells three apart,
  by its warnings: the invalid offset, the missing path, and the \<open>catch\<close> branch, whose
  only error is the cipher's complaint about the length of its input. No path of the
  source produces \<open>TruncatedPayload\<close>, \<open>InvalidBase64\<close> or \<open>DecryptionFailure\<close>.
\<close>

datatype DecodeFailure =
  MalformedOffset | TruncatedPayload | InvalidBase64 | InvalidCiphertextLength
  | DecryptionFailure | MarkerNotFound

fun failure_kind :: "warning \<Rightarrow> DecodeFailure" where
  "failure_kind InvalidOffset = MalformedOffset"
| "failure_kind NoHlsPath = MarkerNotFound"
| "failure_kind (FailedToDecrypt WrongFinalBlockLength) = InvalidCiphertextLength"

definition decode :: "jsstring \<Rightarrow> DecodeFailure + jsstring" where
  "decode encryptedField =
     (case decryptStreamPath encryptedField of
        Inl w \<Rightarrow> Inl (failure_kind w)
      | Inr url \<Rightarrow> Inr url)"

section \<open>\<open>fetchStreamUrl\<close> and \<open>getMediaUrls\<close>\<close>

text \<open>
  The transport is an input of the model: a function from the form body that
  \<open>fetchStreamUrl\<close> posts to the parsed JSON envelope, or to the error that \<open>fetch\<close> or
  \<open>res.json()\<close> throws. Every request is appended to a log, so that the attempts made
  are part of the result.
\<close>

datatype quality_tier = low | medium | high

fun tier_name :: "quality_tier \<Rightarrow> jsstring" where
  "tier_name low = js ''low''"
| "tier_name medium = js ''medium''"
| "tier_name high = js ''high''"

record MediaUrl =
  quality :: jsstring
  bitRate :: jsstring
  url :: jsstring
  format :: jsstring

record stream_data =
  stream_path :: "jsstring option"
  bit_rate :: "jsstring option"
  track_format :: "jsstring option"

record envelope =
  api_status :: "jsstring option"
  data :: "stream_data option"

record request =
  req_quality :: jsstring
  req_track_id :: jsstring
  req_stream_format :: jsstring

datatype transport_error = FetchFailed | InvalidJson

type_synonym transport = "request \<Rightarrow> transport_error + envelope"

text \<open>\<open>v || d\<close> for an optional string: \<open>undefined\<close> and \<open>''\<close> are falsy.\<close>

definition or_else :: "jsstring option \<Rightarrow> jsstring \<Rightarrow> jsstring" where
  "or_else v d = (case v of None \<Rightarrow> d | Some s \<Rightarrow> if s = [] then d else s)"

definition fetchStreamUrl ::
  "transport \<Rightarrow> jsstring \<Rightarrow> quality_tier \<Rightarrow> request list \<Rightarrow> MediaUrl option \<times> request list"
where
  "fetchStreamUrl send trackId q log =
     (let body = \<lparr>req_quality = tier_name q, req_track_id = trackId,
                   req_stream_format = js ''mp4''\<rparr>;
          log' = log @ [body]
      in case send body of
           Inl err \<Rightarrow> (None, log')
         | Inr env \<Rightarrow>
             (case data env of
                None \<Rightarrow> (None, log')
              | Some d \<Rightarrow>
                  (case stream_path d of
                     None \<Rightarrow> (None, log')
                   | Some sp \<Rightarrow>
                       if api_status env = Some (js ''success'') \<and> sp \<noteq> [] then
                         (let decryptedUrl = returned (decryptStreamPath sp)
                          in if decryptedUrl \<noteq> []
                             then (Some \<lparr>quality = tier_name q,
                                         bitRate = or_else (bit_rate d) [],
                                         url = decryptedUrl,
                                         format = or_else (track_format d) (js ''mp4'')\<rparr>,
                                   log')
                             else (None, log'))
                       else (None, log'))))"

definition getMediaUrls ::
  "transport \<Rightarrow> jsstring \<Rightarrow> request list \<Rightarrow> MediaUrl list \<times> request list"
where
  "getMediaUrls send trackId log =
     (let qualities = [high, medium, low];
          results = [];
          (highQuality, log') = fetchStreamUrl send trackId high log
      in (case highQuality of
            Some m \<Rightarrow> (results @ [m], log')
          | None \<Rightarrow> (results, log')))"

section \<open>The reference encoder of the round-trip law\<close>

text \<open>
  Modelled from the spec: the reference encoder, which is not part of the source. The
  design describes the field it produces: one digit \<open>offset\<close>, a framing region that
  ends at index \<open>offset + 16\<close>, and the base64 text, without its padding, of the
  AES-128-CBC ciphertext under the fixed key and initialization vector. The plaintext is
  the path followed by the bytes \<open>pad\<close> that complete the last block; the design leaves
  them open (null bytes, control characters or the padding of the cipher).
  The cipher is the forward direction of FIPS 197.
\<close>

definition shift_rows :: "byte list \<Rightarrow> byte list" where
  "shift_rows s =
     [s ! 0, s ! 5, s ! 10, s ! 15, s ! 4, s ! 9, s ! 14, s ! 3,
      s ! 8, s ! 13, s ! 2, s ! 7, s ! 12, s ! 1, s ! 6, s ! 11]"

definition mix_column :: "byte \<Rightarrow> byte \<Rightarrow> byte \<Rightarrow> byte \<Rightarrow> byte list" where
  "mix_column a b c d =
     [xtime a XOR (xtime b XOR b) XOR c XOR d,
      a XOR xtime b XOR (xtime c XOR c) XOR d,
      a XOR b XOR xtime c XOR (xtime d XOR d),
      (xtime a XOR a) XOR b XOR c XOR xtime d]"

definition mix_columns :: "byte list \<Rightarrow> byte list" where
  "mix_columns s =
     mix_column (s ! 0) (s ! 1) (s ! 2) (s ! 3) @
     mix_column (s ! 4) (s ! 5) (s ! 6) (s ! 7) @
     mix_column (s ! 8) (s ! 9) (s ! 10) (s ! 11) @
     mix_column (s ! 12) (s ! 13) (s ! 14) (s ! 15)"

definition round_fun :: "byte list \<Rightarrow> byte list \<Rightarrow> byte list" where
  "round_fun s rk = xor_bytes (mix_columns (shift_rows (map sub_byte s))) rk"

definition cipher :: "byte list list \<Rightarrow> byte list \<Rightarrow> byte list" where
  "cipher rks p =
     xor_bytes
       (shift_rows
          (map sub_byte (foldl round_fun (xor_bytes p (rks ! 0)) (take 9 (drop 1 rks)))))
       (rks ! 10)"

fun cbc_encrypt :: "byte list list \<Rightarrow> byte list \<Rightarrow> byte list \<Rightarrow> byte list" where
  "cbc_encrypt rks prev pt =
     (if length pt < 16 then []
      else (let c = cipher rks (xor_bytes (take 16 pt) prev)
            in c @ cbc_encrypt rks c (drop 16 pt)))"

declare cbc_encrypt.simps [simp del]

text \<open>Base64 without padding: six bits per character, the last group filled with zeros.\<close>

definition base64_alphabet :: string where
  "base64_alphabet = ''ABCDEFGHIJKLMNOPQRSTUVWXYZabcdefghijklmnopqrstuvwxyz0123456789+/''"

definition base64_char :: "byte \<Rightarrow> jschar" where
  "base64_char v = js base64_alphabet ! unat v"

fun sextets :: "byte list \<Rightarrow> byte list" where
  "sextets (x # y # z # rest) =
     drop_bit 2 x # (push_bit 4 (x AND 0x03) OR drop_bit 4 y)
       # (push_bit 2 (y AND 0x0F) OR drop_bit 6 z) # (z AND 0x3F) # sextets rest"
| "sextets [x, y] =
     [drop_bit 2 x, push_bit 4 (x AND 0x03) OR drop_bit 4 y, push_bit 2 (y AND 0x0F)]"
| "sextets [x] = [drop_bit 2 x, push_bit 4 (x AND 0x03)]"
| "sextets [] = []"

definition base64_encode :: "byte list \<Rightarrow> jsstring" where
  "base64_encode bs = map base64_char (sextets bs)"

definition reference_encode :: "nat \<Rightarrow> jsstring \<Rightarrow> byte list \<Rightarrow> string \<Rightarrow> jsstring" where
  "reference_encode offset framing pad path =
     of_nat (48 + offset) # framing
       @ base64_encode (cbc_encrypt (expand_key rcon KEY) IV (ascii_bytes path @ pad))"

section \<open>Properties of the string operations\<close>

lemma indexOf_absent: "indexOf s pat < 0 \<Longrightarrow> take (length pat) (drop k s) \<noteq> pat"
proof (induction s arbitrary: k)
  case Nil
  then show ?case by (auto split: if_splits)
next
  case (Cons c cs)
  from Cons.prems have ne: "take (length pat) (c # cs) \<noteq> pat" and neg: "indexOf cs pat < 0"
    by (auto simp: Let_def split: if_splits)
  show ?case
  proof (cases k)
    case 0
    with ne show ?thesis by simp
  next
    case (Suc j)
    with Cons.IH [OF neg, of j] show ?thesis by simp
  qed
qed

lemma indexOf_match:
  "0 \<le> indexOf s pat \<Longrightarrow> take (length pat) (drop (nat (indexOf s pat)) s) = pat"
proof (induction s)
  case Nil
  then show ?case by (auto split: if_splits)
next
  case (Cons c cs)
  show ?case
  proof (cases "take (length pat) (c # cs) = pat")
    case True
    then show ?thesis by simp
  next
    case False
    with Cons.prems have pos: "0 \<le> indexOf cs pat"
      by (auto simp: Let_def split: if_splits)
    with False have "indexOf (c # cs) pat = indexOf cs pat + 1"
      by (auto simp: Let_def)
    moreover from pos have "nat (indexOf cs pat + 1) = Suc (nat (indexOf cs pat))"
      by simp
    ultimately show ?thesis using Cons.IH [OF pos] by simp
  qed
qed

lemma indexOf_least:
  "0 \<le> indexOf s pat \<Longrightarrow> k < nat (indexOf s pat) \<Longrightarrow> take (length pat) (drop k s) \<noteq> pat"
proof (induction s arbitrary: k)
  case Nil
  then show ?case by (auto split: if_splits)
next
  case (Cons c cs)
  show ?case
  proof (cases "take (length pat) (c # cs) = pat")
    case True
    with Cons.prems show ?thesis by simp
  next
    case False
    with Cons.prems have pos: "0 \<le> indexOf cs pat"
      by (auto simp: Let_def split: if_splits)
    with False have eq: "indexOf (c # cs) pat = indexOf cs pat + 1"
      by (auto simp: Let_def)
    show ?thesis
    proof (cases k)
      case 0
      with False show ?thesis by simp
    next
      case (Suc j)
      with Cons.prems eq pos have "j < nat (indexOf cs pat)" by simp
      with Cons.IH [OF pos] Suc show ?thesis by simp
    qed
  qed
qed

lemma includes_str_iff: "includes_str s pat \<longleftrightarrow> (\<exists>a b. s = a @ pat @ b)"
proof
  assume "includes_str s pat"
  then have pos: "0 \<le> indexOf s pat" by (simp add: includes_str_def)
  let ?i = "nat (indexOf s pat)"
  from indexOf_match [OF pos] have "drop ?i s = pat @ drop (length pat) (drop ?i s)"
    by (metis append_take_drop_id)
  then have "s = take ?i s @ pat @ drop (length pat) (drop ?i s)"
    by (metis append_take_drop_id)
  then show "\<exists>a b. s = a @ pat @ b" by blast
next
  assume "\<exists>a b. s = a @ pat @ b"
  then obtain a b where s: "s = a @ pat @ b" by blast
  show "includes_str s pat"
  proof (rule ccontr)
    assume "\<not> includes_str s pat"
    then have "indexOf s pat < 0" by (simp add: includes_str_def)
    from indexOf_absent [OF this, of "length a"] s show False by simp
  qed
qed

lemma decrypt_via_sanitized:
  "sanitized_text x = Some t \<Longrightarrow> decryptStreamPath x = extract_hls t"
  by (auto simp: sanitized_text_def decryptStreamPath_def split: option.splits sum.splits)

lemma js_hls_len: "length (js ''hls/'') = 4"
  by (simp add: js_def)

lemma slash_hls: "js ''/hls/'' = js ''/'' @ js ''hls/''"
  by (simp add: js_def)

section \<open>Properties of the decoder\<close>

lemma cbc_decrypt_Nil: "cbc_decrypt rks prev [] = []"
  by (simp add: cbc_decrypt.simps)

lemma js_slash_hls_nonempty: "js ''/hls/'' \<noteq> []"
  by (simp add: js_def)

lemma extract_hls_Nil: "extract_hls [] = Inl NoHlsPath"
  by (simp add: extract_hls_def includes_str_def js_slash_hls_nonempty)

lemma clean_text_Nil: "clean_text [] = []"
  by (simp add: clean_text_def js_trim_def)

lemma wrong_length:
  assumes "parseInt10 (char_at0 x) = Some offset"
    and "length (ciphertext_of x offset) mod 16 \<noteq> 0"
  shows "decryptStreamPath x = Inl (FailedToDecrypt WrongFinalBlockLength)"
  using assms by (simp add: decryptStreamPath_def decrypt_bytes_def decipher_final_def)

lemma empty_payload:
  assumes "parseInt10 (char_at0 x) = Some offset"
    and "ciphertext_of x offset = []"
  shows "decryptStreamPath x = Inl NoHlsPath"
  using assms
  by (simp add: decryptStreamPath_def decrypt_bytes_def decipher_final_def
      decipher_update_def cbc_decrypt_Nil clean_text_Nil extract_hls_Nil)

lemma base64_symbols_pad: "base64_symbols (p @ js ''=='') = base64_symbols p"
proof (induction p)
  case Nil
  show ?case by (simp add: js_def unbase64_def)
next
  case (Cons c cs)
  then show ?case by (simp split: option.splits)
qed

lemma base64_decode_pad: "base64_decode (p @ js ''=='') = base64_decode p"
  by (simp add: base64_decode_def base64_symbols_pad)

lemma base64_decode_Nil: "base64_decode [] = []"
  by (simp add: base64_decode_def)

lemma digit_cases:
  fixes c :: jschar
  assumes "0x30 \<le> c" and "c \<le> 0x39"
  shows "c \<in> set (js ''0123456789'')"
proof -
  from assms have "48 \<le> unat c" and "unat c \<le> 57"
    by (simp_all add: word_le_nat_alt)
  then have "unat c = 48 \<or> unat c = 49 \<or> unat c = 50 \<or> unat c = 51 \<or> unat c = 52
      \<or> unat c = 53 \<or> unat c = 54 \<or> unat c = 55 \<or> unat c = 56 \<or> unat c = 57"
    by arith
  then have "c \<in> {48, 49, 50, 51, 52, 53, 54, 55, 56, 57}"
    by (auto simp: word_unat_eq_iff)
  then show ?thesis by (simp add: js_def)
qed

lemma extract_hls_cases:
  "extract_hls t = Inl NoHlsPath \<or> (\<exists>path. extract_hls t = Inr (HLS_BASE_URL @ path))"
  by (simp add: extract_hls_def Let_def)

lemma decryptStreamPath_cases:
  "(\<exists>w. decryptStreamPath x = Inl w) \<or> (\<exists>path. decryptStreamPath x = Inr (HLS_BASE_URL @ path))"
  using extract_hls_cases
  by (auto simp: decryptStreamPath_def split: option.splits sum.splits)

lemma HLS_BASE_URL_nonempty: "HLS_BASE_URL \<noteq> []"
  by (simp add: HLS_BASE_URL_def js_def)

lemma decode_Inr: "decode sp = Inr u \<Longrightarrow> decryptStreamPath sp = Inr u \<and> u \<noteq> []"
  using decryptStreamPath_cases [of sp] HLS_BASE_URL_nonempty
  by (auto simp: decode_def split: sum.splits)

lemma fetchStreamUrl_log:
  "snd (fetchStreamUrl send trackId q log)
     = log @ [\<lparr>req_quality = tier_name q, req_track_id = trackId, req_stream_format = js ''mp4''\<rparr>]"
  by (simp add: fetchStreamUrl_def Let_def split: sum.splits option.splits)

lemma fetchStreamUrl_quality:
  "fst (fetchStreamUrl send trackId q log) = Some m \<Longrightarrow> quality m = tier_name q"
  by (auto simp: fetchStreamUrl_def Let_def split: sum.splits option.splits if_splits)

subsection \<open>Sanitization\<close>

lemma printable_not_nul: "printable c \<Longrightarrow> c \<noteq> 0"
  by (auto simp: printable_def)

lemma filter_printable_nul:
  "filter printable (filter (\<lambda>c. c \<noteq> 0) t) = filter printable t"
  by (induction t) (auto dest: printable_not_nul)

lemma js_trim_subseq: "subseq (js_trim s) s"
proof -
  have "prefix (js_trim s) (dropWhile is_js_whitespace s)"
    unfolding js_trim_def
    by (metis suffix_dropWhile suffix_to_prefix rev_rev_ident)
  then have "subseq (js_trim s) (dropWhile is_js_whitespace s)"
    by (rule prefix_imp_subseq)
  moreover have "subseq (dropWhile is_js_whitespace s) s"
    by (rule suffix_imp_subseq) (rule suffix_dropWhile)
  ultimately show ?thesis by (rule subseq_order.trans)
qed

lemma clean_text_subseq: "subseq (clean_text t) t"
proof -
  have "subseq (clean_text t) (js_trim (filter (\<lambda>c. c \<noteq> 0) t))"
    by (simp add: clean_text_def)
  also have "subseq \<dots> (filter (\<lambda>c. c \<noteq> 0) t)" by (rule js_trim_subseq)
  also have "subseq \<dots> t" by simp
  finally show ?thesis .
qed

lemma js_trim_core:
  assumes lead: "\<forall>c\<in>set lead. is_js_whitespace c"
    and trail: "\<forall>c\<in>set trail. is_js_whitespace c"
    and core: "core \<noteq> [] \<longrightarrow> \<not> is_js_whitespace (hd core) \<and> \<not> is_js_whitespace (last core)"
  shows "js_trim (lead @ core @ trail) = core"
proof (cases "core = []")
  case True
  have "dropWhile is_js_whitespace (lead @ trail) = []"
    using lead trail unfolding dropWhile_eq_Nil_conv by auto
  then have "js_trim (lead @ trail) = []"
    unfolding js_trim_def by (simp only: rev.simps dropWhile.simps)
  with True show ?thesis by simp
next
  case False
  with core have h: "\<not> is_js_whitespace (hd core)" and l: "\<not> is_js_whitespace (last core)"
    by simp_all
  from False h have "dropWhile is_js_whitespace (core @ trail) = core @ trail"
    by (cases core) simp_all
  with lead have 1: "dropWhile is_js_whitespace (lead @ core @ trail) = core @ trail"
    by (simp add: dropWhile_append3 dropWhile_append)
  from False l have "dropWhile is_js_whitespace (rev core) = rev core"
    by (cases "rev core") (auto simp: last_rev hd_rev dest: arg_cong [where f = hd])
  with trail have "dropWhile is_js_whitespace (rev trail @ rev core) = rev core"
    by (simp add: dropWhile_append)
  with 1 show ?thesis by (simp add: js_trim_def)
qed

lemma clean_text_core:
  assumes border: "\<forall>c\<in>set (lead @ trail). c = 0 \<or> is_js_whitespace c"
    and core: "core \<noteq> [] \<longrightarrow>
         hd core \<noteq> 0 \<and> \<not> is_js_whitespace (hd core)
         \<and> last core \<noteq> 0 \<and> \<not> is_js_whitespace (last core)"
  shows "clean_text (lead @ core @ trail) = filter printable core"
proof -
  let ?F = "filter (\<lambda>c. c \<noteq> 0)"
  have l: "\<forall>c\<in>set (?F lead). is_js_whitespace c" using border by auto
  have t: "\<forall>c\<in>set (?F trail). is_js_whitespace c" using border by auto
  have c: "?F core \<noteq> [] \<longrightarrow>
       \<not> is_js_whitespace (hd (?F core)) \<and> \<not> is_js_whitespace (last (?F core))"
  proof
    assume "?F core \<noteq> []"
    then have ne: "core \<noteq> []" by auto
    with core have h: "hd core \<noteq> 0" and l: "last core \<noteq> 0" by simp_all
    from ne h have "hd (?F core) = hd core" by (cases core) simp_all
    moreover from ne l have "last (?F core) = last core"
      by (induction core rule: rev_induct) simp_all
    ultimately show "\<not> is_js_whitespace (hd (?F core)) \<and> \<not> is_js_whitespace (last (?F core))"
      using core ne by simp
  qed
  have "js_trim (?F (lead @ core @ trail)) = ?F core"
    using js_trim_core [OF l t c] by simp
  then show ?thesis
    unfolding clean_text_def by (simp only: filter_printable_nul)
qed

subsection \<open>The path marker\<close>

lemma extract_hls_found:
  assumes "\<exists>a b. t = a @ js ''/hls/'' @ b"
  shows "\<exists>pre suf. t = pre @ js ''hls/'' @ suf
           \<and> (\<forall>k<length pre. take 4 (drop k t) \<noteq> js ''hls/'')
           \<and> extract_hls t = Inr (HLS_BASE_URL @ js ''hls/'' @ suf)"
proof -
  from assms have inc: "includes_str t (js ''/hls/'')" by (simp add: includes_str_iff)
  from assms obtain a b where "t = (a @ js ''/'') @ js ''hls/'' @ b"
    by (auto simp: slash_hls)
  then have "includes_str t (js ''hls/'')" unfolding includes_str_iff by blast
  then have pos: "0 \<le> indexOf t (js ''hls/'')" by (simp add: includes_str_def)
  let ?i = "nat (indexOf t (js ''hls/''))"
  have m: "take 4 (drop ?i t) = js ''hls/''"
    using indexOf_match [OF pos] by (simp add: js_hls_len)
  define suf where "suf = drop 4 (drop ?i t)"
  define pre where "pre = take ?i t"
  have d: "drop ?i t = js ''hls/'' @ suf"
    unfolding suf_def using m by (metis append_take_drop_id)
  then have t: "t = pre @ js ''hls/'' @ suf"
    unfolding pre_def by (metis append_take_drop_id)
  have "?i \<le> length t"
  proof (rule ccontr)
    assume "\<not> ?i \<le> length t"
    then have "drop ?i t = []" by simp
    with m show False by (simp add: js_def)
  qed
  then have len: "length pre = ?i" by (simp add: pre_def)
  have least: "\<forall>k<length pre. take 4 (drop k t) \<noteq> js ''hls/''"
    using indexOf_least [OF pos] len by (simp add: js_hls_len)
  have "extract_hls t = Inr (HLS_BASE_URL @ drop ?i t)"
    using inc by (simp add: extract_hls_def substring_from_def Let_def)
  then have "extract_hls t = Inr (HLS_BASE_URL @ js ''hls/'' @ suf)"
    by (simp only: d)
  with t least show ?thesis by blast
qed

lemma extract_hls_missing:
  "\<not> (\<exists>a b. t = a @ js ''/hls/'' @ b) \<Longrightarrow> extract_hls t = Inl NoHlsPath"
  by (simp add: extract_hls_def includes_str_iff)

section \<open>The cipher and its inverse\<close>

lemma xtime_xor: "xtime (a XOR b) = xtime a XOR xtime b"
  by (simp add: xtime_def bit_xor_iff push_bit_xor ac_simps)

lemma xor_cancel: "(a :: byte) XOR (a XOR b) = b"
  by (simp add: xor.assoc [symmetric])

lemma inv_mix_columns_mix_columns:
  "inv_mix_columns (mix_columns [s0, s1, s2, s3, s4, s5, s6, s7, s8, s9, s10, s11, s12, s13, s14, s15])
     = [s0, s1, s2, s3, s4, s5, s6, s7, s8, s9, s10, s11, s12, s13, s14, s15]"
  by (simp add: mix_columns_def mix_column_def inv_mix_columns_def inv_mix_column_def
      mul9_def mul11_def mul13_def mul14_def xtime_xor xor_cancel ac_simps)


lemma upt_from_0: "1 < n \<Longrightarrow> [0..<n] = 0 # 1 # [2..<n]"
  by (simp add: upt_rec [of 0] upt_rec [of "Suc 0"] numeral_2_eq_2)

lemma sbox_inverse_table:
  "map (\<lambda>x. inv_sbox_table ! unat x) sbox_table = map of_nat [0..<256]"
  by (simp add: sbox_table_def inv_sbox_table_def upt_from_0)

lemma length_sbox_table: "length sbox_table = 256"
  by (simp add: sbox_table_def)

lemma inv_sub_byte_sub_byte: "inv_sub_byte (sub_byte b) = b"
proof -
  have n: "unat b < 256" using unsigned_less [of b] by simp
  then have "map (\<lambda>x. inv_sbox_table ! unat x) sbox_table ! unat b
               = inv_sbox_table ! unat (sbox_table ! unat b)"
    by (simp add: length_sbox_table)
  moreover from n have "map of_nat [0..<256] ! unat b = (of_nat (unat b) :: byte)"
    by (simp del: upt_rec_numeral)
  ultimately show ?thesis
    by (simp add: sbox_inverse_table inv_sub_byte_def sub_byte_def del: upt_rec_numeral)
qed

lemma list16:
  assumes "length s = 16"
  shows "s = [s ! 0, s ! 1, s ! 2, s ! 3, s ! 4, s ! 5, s ! 6, s ! 7,
              s ! 8, s ! 9, s ! 10, s ! 11, s ! 12, s ! 13, s ! 14, s ! 15]"
proof -
  have "map (\<lambda>i. s ! i) [0..<length s] = s" by (rule map_nth)
  with assms have "map (\<lambda>i. s ! i) [0..<16] = s" by simp
  then have "[s ! 0, s ! 1, s ! 2, s ! 3, s ! 4, s ! 5, s ! 6, s ! 7,
              s ! 8, s ! 9, s ! 10, s ! 11, s ! 12, s ! 13, s ! 14, s ! 15] = s"
    by (simp add: upt_from_0)
  then show ?thesis by (rule sym)
qed

lemma inv_shift_rows_shift_rows:
  "inv_shift_rows (shift_rows [s0, s1, s2, s3, s4, s5, s6, s7, s8, s9, s10, s11, s12, s13, s14, s15])
     = [s0, s1, s2, s3, s4, s5, s6, s7, s8, s9, s10, s11, s12, s13, s14, s15]"
  by (simp add: shift_rows_def inv_shift_rows_def)

lemma length_shift_rows: "length (shift_rows s) = 16"
  by (simp add: shift_rows_def)

lemma length_mix_columns: "length (mix_columns s) = 16"
  by (simp add: mix_columns_def mix_column_def)

lemma length_xor_bytes: "length (xor_bytes a b) = min (length a) (length b)"
  by (simp add: xor_bytes_def)

lemma xor_bytes_cancel: "length a = length k \<Longrightarrow> xor_bytes (xor_bytes a k) k = a"
proof (induction a arbitrary: k)
  case Nil
  then show ?case by (simp add: xor_bytes_def)
next
  case (Cons x xs)
  then obtain y ys where k: "k = y # ys" and l: "length xs = length ys"
    by (cases k) auto
  have "(x XOR y) XOR y = x" by (simp add: xor.assoc)
  with Cons.IH [OF l] k show ?case by (simp add: xor_bytes_def)
qed

lemma shift_sub_commute:
  "length s = 16 \<Longrightarrow> inv_shift_rows (shift_rows (map sub_byte s)) = map sub_byte s"
proof -
  assume "length s = 16"
  then have "length (map sub_byte s) = 16" by simp
  from list16 [OF this] inv_shift_rows_shift_rows show ?thesis by metis
qed

lemma inv_sub_shift:
  assumes "length s = 16"
  shows "map inv_sub_byte (inv_shift_rows (shift_rows (map sub_byte s))) = s"
  by (simp add: shift_sub_commute [OF assms] inv_sub_byte_sub_byte comp_def)

lemma inv_mix_columns_shift_rows:
  "inv_mix_columns (mix_columns (shift_rows s)) = shift_rows s"
  unfolding shift_rows_def by (rule inv_mix_columns_mix_columns)

lemma length_round_fun: "length k = 16 \<Longrightarrow> length (round_fun s k) = 16"
  by (simp add: round_fun_def length_xor_bytes length_mix_columns)

lemma inv_round_round_fun:
  assumes k: "length k = 16"
  shows "inv_round (shift_rows (map sub_byte (round_fun s k))) k = shift_rows (map sub_byte s)"
proof -
  have "map inv_sub_byte (inv_shift_rows (shift_rows (map sub_byte (round_fun s k))))
          = round_fun s k"
    by (rule inv_sub_shift) (rule length_round_fun [OF k])
  moreover have "xor_bytes (round_fun s k) k = mix_columns (shift_rows (map sub_byte s))"
    unfolding round_fun_def by (rule xor_bytes_cancel) (simp add: length_mix_columns k)
  ultimately show ?thesis
    by (simp add: inv_round_def inv_mix_columns_shift_rows)
qed

lemma foldl_inv_round:
  "\<forall>k\<in>set ks. length k = 16 \<Longrightarrow>
     foldl inv_round (shift_rows (map sub_byte (foldl round_fun s ks))) (rev ks)
       = shift_rows (map sub_byte s)"
proof (induction ks rule: rev_induct)
  case Nil
  show ?case by simp
next
  case (snoc k ks)
  then have k: "length k = 16" and ks: "\<forall>k\<in>set ks. length k = 16" by simp_all
  from inv_round_round_fun [OF k] snoc.IH [OF ks] show ?case by simp
qed

lemma inv_cipher_cipher:
  assumes p: "length p = 16"
    and keys: "\<forall>k\<in>set (take 9 (drop 1 rks)). length k = 16"
    and k0: "length (rks ! 0) = 16" and k10: "length (rks ! 10) = 16"
  shows "inv_cipher rks (cipher rks p) = p"
proof -
  let ?ks = "take 9 (drop 1 rks)"
  let ?s0 = "xor_bytes p (rks ! 0)"
  have s0: "length ?s0 = 16" using p k0 by (simp add: length_xor_bytes)
  have "xor_bytes (cipher rks p) (rks ! 10) = shift_rows (map sub_byte (foldl round_fun ?s0 ?ks))"
    unfolding cipher_def by (rule xor_bytes_cancel) (simp add: length_shift_rows k10)
  then have "inv_cipher rks (cipher rks p)
      = xor_bytes (map inv_sub_byte (inv_shift_rows (shift_rows (map sub_byte ?s0)))) (rks ! 0)"
    unfolding inv_cipher_def by (simp only: foldl_inv_round [OF keys])
  also have "\<dots> = xor_bytes ?s0 (rks ! 0)" by (simp only: inv_sub_shift [OF s0])
  also have "\<dots> = p" by (rule xor_bytes_cancel) (simp add: p k0)
  finally show ?thesis .
qed

lemma length_cipher: "length (rks ! 10) = 16 \<Longrightarrow> length (cipher rks p) = 16"
  by (simp add: cipher_def length_xor_bytes length_shift_rows)

lemma cbc_round_trip:
  "\<forall>k\<in>set (take 9 (drop 1 rks)). length k = 16 \<Longrightarrow> length (rks ! 0) = 16 \<Longrightarrow>
   length (rks ! 10) = 16 \<Longrightarrow> length prev = 16 \<Longrightarrow> length pt mod 16 = 0 \<Longrightarrow>
     cbc_decrypt rks prev (cbc_encrypt rks prev pt) = pt
     \<and> length (cbc_encrypt rks prev pt) = length pt"
proof (induction rks prev pt rule: cbc_encrypt.induct)
  case (1 rks prev pt)
  show ?case
  proof (cases "length pt < 16")
    case True
    with "1.prems" have "pt = []" by auto
    then show ?thesis by (simp add: cbc_encrypt.simps cbc_decrypt.simps)
  next
    case False
    define x where "x = xor_bytes (take 16 pt) prev"
    define c where "c = cipher rks x"
    define rest where "rest = cbc_encrypt rks c (drop 16 pt)"
    have c16: "length c = 16" unfolding c_def using "1.prems"(3) by (rule length_cipher)
    have x16: "length x = 16"
      using False "1.prems"(4) by (simp add: x_def length_xor_bytes)
    have enc: "cbc_encrypt rks prev pt = c @ rest"
      using False by (simp add: cbc_encrypt.simps [of rks prev pt] c_def x_def rest_def Let_def)
    have m: "length (drop 16 pt) mod 16 = 0"
      using False "1.prems"(5) by (simp add: mod_diff_eq le_mod_geq)
    have IH: "cbc_decrypt rks c rest = drop 16 pt \<and> length rest = length (drop 16 pt)"
      unfolding rest_def
      using "1.IH" [OF False, of c] "1.prems"(1,2,3) c16 m
      by (simp add: c_def x_def)
    have dec: "inv_cipher rks c = x"
      unfolding c_def using x16 "1.prems"(1,2,3) by (rule inv_cipher_cipher)
    have "xor_bytes x prev = take 16 pt"
      unfolding x_def by (rule xor_bytes_cancel) (use False "1.prems"(4) in simp)
    with dec IH c16 have "cbc_decrypt rks prev (c @ rest) = take 16 pt @ drop 16 pt"
      by (simp add: cbc_decrypt.simps [of rks prev "c @ rest"])
    moreover have "length (c @ rest) = length pt"
      using IH c16 False by simp
    ultimately show ?thesis by (simp add: enc)
  qed
qed

lemma length_next_round_key: "length k = 16 \<Longrightarrow> length (next_round_key rc k) = 16"
  by (simp add: next_round_key_def Let_def length_xor_bytes)

lemma expand_key_lengths:
  "length k = 16 \<Longrightarrow>
     length (expand_key rcs k) = Suc (length rcs) \<and> (\<forall>r\<in>set (expand_key rcs k). length r = 16)"
proof (induction rcs arbitrary: k)
  case Nil
  then show ?case by simp
next
  case (Cons rc rcs)
  from Cons.IH [OF length_next_round_key [OF Cons.prems], of rc] Cons.prems
  show ?case by simp
qed

lemma length_KEY: "length KEY = 16"
  by (simp add: KEY_def ascii_bytes_def)

lemma length_IV: "length IV = 16"
  by (simp add: IV_def ascii_bytes_def)

lemma round_keys_lengths:
  "(\<forall>k\<in>set (take 9 (drop 1 (expand_key rcon KEY))). length k = 16)
   \<and> length (expand_key rcon KEY ! 0) = 16 \<and> length (expand_key rcon KEY ! 10) = 16"
proof -
  let ?rks = "expand_key rcon KEY"
  from expand_key_lengths [OF length_KEY, of rcon]
  have n: "length ?rks = 11" and all: "\<forall>r\<in>set ?rks. length r = 16"
    by (simp_all add: rcon_def)
  from all have "\<forall>k\<in>set (take 9 (drop 1 ?rks)). length k = 16"
    by (meson in_set_dropD in_set_takeD)
  moreover from n all have "length (?rks ! 0) = 16" and "length (?rks ! 10) = 16"
    by simp_all
  ultimately show ?thesis by blast
qed

lemma decipher_update_encrypt:
  assumes "length pt mod 16 = 0"
  shows "decipher_update (cbc_encrypt (expand_key rcon KEY) IV pt) = pt"
    and "length (cbc_encrypt (expand_key rcon KEY) IV pt) = length pt"
  using cbc_round_trip [of "expand_key rcon KEY" IV pt] round_keys_lengths length_IV assms
  by (simp_all add: decipher_update_def)

lemma decrypt_bytes_encrypt:
  assumes "length pt mod 16 = 0"
  shows "decrypt_bytes (cbc_encrypt (expand_key rcon KEY) IV pt) = Inr pt"
  using decipher_update_encrypt [OF assms] assms
  by (simp add: decrypt_bytes_def decipher_final_def)


section \<open>Base64 encoding and decoding\<close>

lemma and_3: "(x :: byte) AND 0x03 = take_bit 2 x"
  by (simp add: take_bit_eq_mask mask_eq_exp_minus_1)

lemma and_15: "(x :: byte) AND 0x0F = take_bit 4 x"
  by (simp add: take_bit_eq_mask mask_eq_exp_minus_1)

lemma and_63: "(x :: byte) AND 0x3F = take_bit 6 x"
  by (simp add: take_bit_eq_mask mask_eq_exp_minus_1)

lemmas and_masks = and_3 and_15 and_63

lemma Suc_Suc_diff_2: "2 \<le> n \<Longrightarrow> Suc (Suc (n - 2)) = n"
  by simp

lemma first_byte_of_sextets: "push_bit 2 (drop_bit 2 x) OR drop_bit 4 (push_bit 4 (x AND 0x03) OR drop_bit 4 y) = (x :: byte)"
  unfolding and_masks
proof (rule bit_word_eqI)
  fix n assume "n < LENGTH(8)"
  show "bit (push_bit 2 (drop_bit 2 x) OR drop_bit 4 (push_bit 4 (take_bit 2 x) OR drop_bit 4 y)) n
          = bit x n"
    by (cases "2 \<le> n") (auto simp: bit_simps Suc_Suc_diff_2 dest: bit_imp_le_length)
qed

lemma second_byte_of_sextets: "push_bit 4 ((push_bit 4 (x AND 0x03) OR drop_bit 4 y) AND 0x0F)
             OR drop_bit 2 (push_bit 2 (y AND 0x0F) OR drop_bit 6 z) = (y :: byte)"
  unfolding and_masks
proof (rule bit_word_eqI)
  fix n assume "n < LENGTH(8)"
  show "bit (push_bit 4 (take_bit 4 (push_bit 4 (take_bit 2 x) OR drop_bit 4 y))
             OR drop_bit 2 (push_bit 2 (take_bit 4 y) OR drop_bit 6 z)) n = bit y n"
    by (cases "4 \<le> n") (auto simp: bit_simps Suc_Suc_diff_2 dest: bit_imp_le_length)
qed

lemma third_byte_of_sextets: "push_bit 6 ((push_bit 2 (y AND 0x0F) OR drop_bit 6 z) AND 0x03) OR (z AND 0x3F) = (z :: byte)"
  unfolding and_masks
proof (rule bit_word_eqI)
  fix n assume "n < LENGTH(8)"
  show "bit (push_bit 6 (take_bit 2 (push_bit 2 (take_bit 4 y) OR drop_bit 6 z)) OR take_bit 6 z) n
          = bit z n"
    by (cases "6 \<le> n") (auto simp: bit_simps Suc_Suc_diff_2 dest: bit_imp_le_length)
qed

lemma second_byte_of_three_sextets: "push_bit 4 ((push_bit 4 (x AND 0x03) OR drop_bit 4 y) AND 0x0F)
             OR drop_bit 2 (push_bit 2 (y AND 0x0F)) = (y :: byte)"
  unfolding and_masks
proof (rule bit_word_eqI)
  fix n assume "n < LENGTH(8)"
  show "bit (push_bit 4 (take_bit 4 (push_bit 4 (take_bit 2 x) OR drop_bit 4 y))
             OR drop_bit 2 (push_bit 2 (take_bit 4 y))) n = bit y n"
    by (cases "4 \<le> n") (auto simp: bit_simps Suc_Suc_diff_2 dest: bit_imp_le_length)
qed

lemma first_byte_of_two_sextets: "push_bit 2 (drop_bit 2 x) OR drop_bit 4 (push_bit 4 (x AND 0x03)) = (x :: byte)"
  unfolding and_masks
proof (rule bit_word_eqI)
  fix n assume "n < LENGTH(8)"
  show "bit (push_bit 2 (drop_bit 2 x) OR drop_bit 4 (push_bit 4 (take_bit 2 x))) n = bit x n"
    by (cases "2 \<le> n") (auto simp: bit_simps Suc_Suc_diff_2 dest: bit_imp_le_length)
qed

lemma sextet_bound: "take_bit 6 v = v \<Longrightarrow> unat (v :: byte) < 64"
proof -
  assume "take_bit 6 v = v"
  then have "unat v = take_bit 6 (unat v)"
    by (metis unsigned_take_bit_eq)
  also have "\<dots> < 2 ^ 6" by (rule take_bit_nat_less_exp)
  finally show ?thesis by simp
qed

lemma first_sextet_low: "take_bit 6 (drop_bit 2 x) = (drop_bit 2 x :: byte)"
  by (rule bit_word_eqI) (auto simp: bit_simps dest: bit_imp_le_length)

lemma second_sextet_low: "take_bit 6 (push_bit 4 (x AND 0x03) OR drop_bit 4 y) = (push_bit 4 (x AND 0x03) OR drop_bit 4 y :: byte)"
  unfolding and_masks
  by (rule bit_word_eqI) (auto simp: bit_simps dest: bit_imp_le_length)

lemma third_sextet_low: "take_bit 6 (push_bit 2 (y AND 0x0F) OR drop_bit 6 z) = (push_bit 2 (y AND 0x0F) OR drop_bit 6 z :: byte)"
  unfolding and_masks
  by (rule bit_word_eqI) (auto simp: bit_simps dest: bit_imp_le_length)

lemma fourth_sextet_low: "take_bit 6 (z AND 0x3F) = (z AND 0x3F :: byte)"
  unfolding and_masks by simp

lemma second_sextet_short_low: "take_bit 6 (push_bit 4 (x AND 0x03)) = (push_bit 4 (x AND 0x03) :: byte)"
  unfolding and_masks
  by (rule bit_word_eqI) (auto simp: bit_simps dest: bit_imp_le_length)

lemma third_sextet_short_low: "take_bit 6 (push_bit 2 (y AND 0x0F)) = (push_bit 2 (y AND 0x0F) :: byte)"
  unfolding and_masks
  by (rule bit_word_eqI) (auto simp: bit_simps dest: bit_imp_le_length)

lemmas sextet_bounds =
  first_sextet_low [THEN sextet_bound] second_sextet_low [THEN sextet_bound] third_sextet_low [THEN sextet_bound]
  fourth_sextet_low [THEN sextet_bound] second_sextet_short_low [THEN sextet_bound] third_sextet_short_low [THEN sextet_bound]

lemma sextets_bound: "\<forall>v\<in>set (sextets bs). unat v < 64"
proof (induction bs rule: sextets.induct)
  case (1 x y z rest)
  then show ?case
    by (simp only: sextets.simps list.set ball_simps sextet_bounds simp_thms)
next
  case (2 x y)
  show ?case by (simp only: sextets.simps list.set ball_simps sextet_bounds simp_thms)
next
  case (3 x)
  show ?case by (simp only: sextets.simps list.set ball_simps sextet_bounds simp_thms)
next
  case 4
  show ?case by simp
qed

lemma base64_groups_sextets: "base64_groups (sextets bs) = bs"
proof (induction bs rule: sextets.induct)
  case (1 x y z rest)
  then show ?case by (simp only: sextets.simps base64_groups.simps first_byte_of_sextets second_byte_of_sextets third_byte_of_sextets)
next
  case (2 x y)
  show ?case by (simp only: sextets.simps base64_groups.simps first_byte_of_sextets second_byte_of_three_sextets)
next
  case (3 x)
  show ?case by (simp only: sextets.simps base64_groups.simps first_byte_of_two_sextets)
next
  case 4
  show ?case by simp
qed

lemma alphabet_table:
  "map (\<lambda>c. unbase64 (ucast c)) (js base64_alphabet) = map (\<lambda>n. Some (of_nat n)) [0..<64]"
  by (simp add: base64_alphabet_def js_def unbase64_def upt_from_0)

lemma length_alphabet: "length (js base64_alphabet) = 64"
  by (simp add: base64_alphabet_def js_def)

lemma unbase64_base64_char:
  assumes "unat v < 64"
  shows "unbase64 (ucast (base64_char v)) = Some v"
proof -
  from assms have "map (\<lambda>c. unbase64 (ucast c)) (js base64_alphabet) ! unat v
                     = unbase64 (ucast (base64_char v))"
    by (simp add: base64_char_def length_alphabet)
  moreover from assms have "map (\<lambda>n. Some (of_nat n)) [0..<64] ! unat v = Some (of_nat (unat v) :: byte)"
    by (simp del: upt_rec_numeral)
  ultimately show ?thesis by (simp add: alphabet_table del: upt_rec_numeral)
qed

lemma base64_symbols_chars:
  "\<forall>v\<in>set vs. unat v < 64 \<Longrightarrow> base64_symbols (map base64_char vs) = vs"
  by (induction vs) (simp_all add: unbase64_base64_char)

lemma base64_decode_encode: "base64_decode (base64_encode bs) = bs"
  by (simp add: base64_decode_def base64_encode_def base64_symbols_chars sextets_bound
      base64_groups_sextets)

lemma utf8_decode_ascii: "\<forall>b\<in>set bs. b \<le> 0x7F \<Longrightarrow> utf8_decode bs = map ucast bs"
  by (induction bs) simp_all

section \<open>Plain ASCII text through the decoder\<close>

lemma of_char_less_256: "(of_char c :: nat) < 256"
  using of_char_mod_256 [of c] by (metis mod_less_divisor zero_less_numeral)

lemma ucast_ascii_bytes: "map ucast (ascii_bytes s) = js s"
proof -
  have "ucast (of_nat (of_char c) :: byte) = (of_nat (of_char c) :: jschar)" for c
    using of_char_less_256 [of c] by (simp add: unsigned_of_nat take_bit_nat_eq_self)
  then show ?thesis by (simp add: ascii_bytes_def js_def)
qed


lemma unat_js_char: "unat (of_nat (of_char c) :: jschar) = of_char c"
proof -
  have "(of_char c :: nat) < 65536"
    by (rule order_less_trans [OF of_char_less_256]) simp
  then show ?thesis by (simp add: unat_of_nat)
qed

lemma unat_ucast_byte: "unat (ucast (b :: byte) :: jschar) = unat b"
  by (simp add: unsigned_ucast_eq take_bit_nat_eq_self unsigned_less [THEN order_less_le_trans])

lemma ascii_bytes_le: "(of_char c :: nat) \<le> 126 \<Longrightarrow> (of_nat (of_char c) :: byte) \<le> 0x7F"
  by (simp add: word_le_nat_alt unat_of_nat)

lemma utf8_decode_plain:
  assumes path: "\<forall>c\<in>set path. (of_char c :: nat) \<le> 126" and pad: "\<forall>b\<in>set pad. b < 32"
  shows "utf8_decode (ascii_bytes path @ pad) = js path @ map ucast pad"
proof -
  have "\<forall>b\<in>set (ascii_bytes path). b \<le> 0x7F"
    using path by (auto simp: ascii_bytes_def ascii_bytes_le)
  moreover have "\<forall>b\<in>set pad. b \<le> 0x7F"
  proof
    fix b assume "b \<in> set pad"
    with pad have "b < 32" by simp
    then show "b \<le> 0x7F" by (simp add: word_le_nat_alt word_less_nat_alt)
  qed
  ultimately have "utf8_decode (ascii_bytes path @ pad) = map ucast (ascii_bytes path @ pad)"
    by (intro utf8_decode_ascii) auto
  then show ?thesis by (simp add: ucast_ascii_bytes)
qed

lemma printable_js:
  "\<forall>c\<in>set path. 32 \<le> (of_char c :: nat) \<and> (of_char c :: nat) \<le> 126 \<Longrightarrow>
     \<forall>c\<in>set (js path). printable c"
  by (auto simp: js_def printable_def unat_js_char)

lemma not_printable_pad:
  fixes pad :: "byte list"
  shows "\<forall>b\<in>set pad. b < 32 \<Longrightarrow> \<forall>c\<in>set (map ucast pad :: jsstring). \<not> printable c"
proof
  fix c assume pad: "\<forall>b\<in>set pad. b < 32" and "c \<in> set (map ucast pad :: jsstring)"
  then obtain b where b: "b \<in> set pad" and c: "c = ucast b" by auto
  from pad b have "unat b < 32" by (simp add: word_less_nat_alt)
  with c show "\<not> printable c" by (simp add: printable_def unat_ucast_byte)
qed

lemma printable_whitespace: "printable c \<Longrightarrow> is_js_whitespace c \<longleftrightarrow> c = 0x20"
  by (simp add: printable_def is_js_whitespace_def word_unat_eq_iff word_le_nat_alt)

lemma clean_text_padded:
  assumes p: "\<forall>c\<in>set p. printable c"
    and ends: "p \<noteq> [] \<longrightarrow> hd p \<noteq> 0x20 \<and> last p \<noteq> 0x20"
    and q: "\<forall>c\<in>set q. \<not> printable c"
  shows "clean_text (p @ q) = p"
proof -
  let ?F = "filter (\<lambda>c. c \<noteq> 0)"
  let ?W = is_js_whitespace
  have Fp: "?F p = p" using p by (auto simp: filter_id_conv dest: printable_not_nul)
  have Fq: "\<forall>c\<in>set (?F q). \<not> printable c" using q by simp
  have "filter printable (js_trim (p @ ?F q)) = p"
  proof (cases "p = []")
    case True
    have "subseq (js_trim (?F q)) (?F q)" by (rule js_trim_subseq)
    then have "set (js_trim (?F q)) \<subseteq> set (?F q)" by (rule list_emb_set [THEN subsetI]) auto
    with Fq have "filter printable (js_trim (?F q)) = []"
      by (auto simp: filter_empty_conv)
    with True show ?thesis by simp
  next
    case False
    with ends p have h: "\<not> ?W (hd p)" and l: "\<not> ?W (last p)"
      by (simp_all add: printable_whitespace)
    from False h have 1: "dropWhile ?W (p @ ?F q) = p @ ?F q"
      by (cases p) simp_all
    from False l have 2: "dropWhile ?W (rev p) = rev p"
      by (cases "rev p") (auto simp: last_rev hd_rev dest: arg_cong [where f = hd])
    have "\<exists>r. set r \<subseteq> set (?F q) \<and> dropWhile ?W (rev (?F q) @ rev p) = r @ rev p"
    proof (cases "\<forall>x\<in>set (rev (?F q)). ?W x")
      case True
      then have "dropWhile ?W (rev (?F q) @ rev p) = dropWhile ?W (rev p)"
        by (simp add: dropWhile_append)
      with 2 have "dropWhile ?W (rev (?F q) @ rev p) = [] @ rev p" by simp
      then show ?thesis by (metis empty_set empty_subsetI)
    next
      case False
      then obtain x where "x \<in> set (rev (?F q))" and "\<not> ?W x" by blast
      then have "dropWhile ?W (rev (?F q) @ rev p) = dropWhile ?W (rev (?F q)) @ rev p"
        by (rule dropWhile_append1)
      moreover have "set (dropWhile ?W (rev (?F q))) \<subseteq> set (?F q)"
        by (auto dest: set_dropWhileD)
      ultimately show ?thesis by blast
    qed
    then obtain r where r: "set r \<subseteq> set (?F q)"
      and d: "dropWhile ?W (rev (?F q) @ rev p) = r @ rev p" by blast
    from r Fq have "filter printable (rev r) = []" by (auto simp: filter_empty_conv)
    moreover have "js_trim (p @ ?F q) = p @ rev r"
      unfolding js_trim_def 1 using d by simp
    moreover from p have "filter printable p = p" by (simp add: filter_id_conv)
    ultimately show ?thesis by simp
  qed
  then show ?thesis by (simp add: clean_text_def Fp)
qed

lemma js_char_space: "(of_nat (of_char c) :: jschar) = 0x20 \<longleftrightarrow> c = CHR '' ''"
proof
  assume "(of_nat (of_char c) :: jschar) = 0x20"
  then have "unat (of_nat (of_char c) :: jschar) = 32" by simp
  then have "(of_char c :: nat) = of_char CHR '' ''" by (simp add: unat_js_char)
  then show "c = CHR '' ''" by (simp only: of_char_eq_iff)
next
  assume "c = CHR '' ''"
  then show "(of_nat (of_char c) :: jschar) = 0x20" by simp
qed

lemma digit_offset:
  assumes "offset \<le> 9"
  shows "parseInt10 (Some (of_nat (48 + offset))) = Some offset"
proof -
  define c :: jschar where "c = of_nat (48 + offset)"
  have "unat c = (48 + offset) mod 2 ^ LENGTH(16)"
    unfolding c_def by (rule unat_of_nat)
  with assms have u: "unat c = 48 + offset" by simp
  then have "0x30 \<le> c" and "c \<le> 0x39"
    using assms by (simp_all add: word_le_nat_alt)
  with u have "parseInt10 (Some c) = Some offset" by (simp add: parseInt10_def)
  then show ?thesis by (simp only: c_def)
qed

lemma sanitized_reference_encode:
  assumes off: "offset \<le> 9" and fr: "length framing = offset + 15"
    and path: "\<forall>c\<in>set path. 32 \<le> (of_char c :: nat) \<and> (of_char c :: nat) \<le> 126"
    and ends: "path \<noteq> [] \<longrightarrow> hd path \<noteq> CHR '' '' \<and> last path \<noteq> CHR '' ''"
    and pad: "\<forall>b\<in>set pad. b < 32"
    and len: "(length path + length pad) mod 16 = 0"
  shows "sanitized_text (reference_encode offset framing pad path) = Some (js path)"
proof -
  let ?pt = "ascii_bytes path @ pad"
  let ?ct = "cbc_encrypt (expand_key rcon KEY) IV ?pt"
  let ?x = "reference_encode offset framing pad path"
  have o: "parseInt10 (char_at0 ?x) = Some offset"
    by (simp only: reference_encode_def char_at0_def list.case digit_offset [OF off])
  have "nat (int offset + 16) = Suc (offset + 15)" by simp
  then have "ciphertextB64 ?x offset = base64_encode ?ct"
    using fr by (simp only: ciphertextB64_def substring_from_def reference_encode_def drop_Suc_Cons)
      simp
  then have c: "ciphertext_of ?x offset = ?ct"
    by (simp add: ciphertext_of_def paddedB64_def base64_decode_pad base64_decode_encode)
  have "length ?pt mod 16 = 0" using len by (simp add: ascii_bytes_def)
  then have d: "decrypt_bytes ?ct = Inr ?pt" by (rule decrypt_bytes_encrypt)
  have u: "utf8_decode ?pt = js path @ map ucast pad"
    using path pad by (intro utf8_decode_plain) auto
  have e: "js path \<noteq> [] \<longrightarrow> hd (js path) \<noteq> 0x20 \<and> last (js path) \<noteq> 0x20"
  proof
    assume "js path \<noteq> []"
    then have ne: "path \<noteq> []" by (simp add: js_def)
    with ends have "hd path \<noteq> CHR '' ''" and "last path \<noteq> CHR '' ''" by simp_all
    with ne show "hd (js path) \<noteq> 0x20 \<and> last (js path) \<noteq> 0x20"
      by (simp add: js_def hd_map last_map js_char_space)
  qed
  have "clean_text (js path @ map ucast pad) = js path"
    using printable_js [OF path] e not_printable_pad [OF pad] by (rule clean_text_padded)
  with o c d u show ?thesis by (simp add: sanitized_text_def)
qed

section \<open>Concrete fields\<close>

subsection \<open>Two encrypted fields\<close>

text \<open>
  The round keys of the fixed key, and two fields whose ciphertexts were produced with
  the fixed key and initialization vector: the first decrypts to
  \<open>junk###hls/abc/def.m3u8\<close>, the second to \<open>junk###/hls/abc/def.m3u8\<close>, each followed
  by null bytes up to the end of the block.
\<close>

lemma round_keys_eval:
  "expand_key rcon KEY = [
    [0x67, 0x79, 0x31, 0x74, 0x23, 0x62, 0x40, 0x6a, 0x6c, 0x28, 0x62, 0x24, 0x77, 0x74, 0x6d, 0x65],
    [0xf4, 0x45, 0x7c, 0x81, 0xd7, 0x27, 0x3c, 0xeb, 0xbb, 0x0f, 0x5e, 0xcf, 0xcc, 0x7b, 0x33, 0xaa],
    [0xd7, 0x86, 0xd0, 0xca, 0x00, 0xa1, 0xec, 0x21, 0xbb, 0xae, 0xb2, 0xee, 0x77, 0xd5, 0x81, 0x44],
    [0xd0, 0x8a, 0xcb, 0x3f, 0xd0, 0x2b, 0x27, 0x1e, 0x6b, 0x85, 0x95, 0xf0, 0x1c, 0x50, 0x14, 0xb4],
    [0x8b, 0x70, 0x46, 0xa3, 0x5b, 0x5b, 0x61, 0xbd, 0x30, 0xde, 0xf4, 0x4d, 0x2c, 0x8e, 0xe0, 0xf9],
    [0x82, 0x91, 0xdf, 0xd2, 0xd9, 0xca, 0xbe, 0x6f, 0xe9, 0x14, 0x4a, 0x22, 0xc5, 0x9a, 0xaa, 0xdb],
    [0x1a, 0x3d, 0x66, 0x74, 0xc3, 0xf7, 0xd8, 0x1b, 0x2a, 0xe3, 0x92, 0x39, 0xef, 0x79, 0x38, 0xe2],
    [0xec, 0x3a, 0xfe, 0xab, 0x2f, 0xcd, 0x26, 0xb0, 0x05, 0x2e, 0xb4, 0x89, 0xea, 0x57, 0x8c, 0x6b],
    [0x37, 0x5e, 0x81, 0x2c, 0x18, 0x93, 0xa7, 0x9c, 0x1d, 0xbd, 0x13, 0x15, 0xf7, 0xea, 0x9f, 0x7e],
    [0xab, 0x85, 0x72, 0x44, 0xb3, 0x16, 0xd5, 0xd8, 0xae, 0xab, 0xc6, 0xcd, 0x59, 0x41, 0x59, 0xb3],
    [0x1e, 0x4e, 0x1f, 0x8f, 0xad, 0x58, 0xca, 0x57, 0x03, 0xf3, 0x0c, 0x9a, 0x5a, 0xb2, 0x55, 0x29]]"
  by (simp add: rcon_def KEY_def ascii_bytes_def next_round_key_def xor_bytes_def sub_byte_def
      sbox_table_def)

lemmas aes_eval =
  inv_cipher_def inv_round_def inv_mix_columns_def inv_mix_column_def inv_shift_rows_def
  xor_bytes_def inv_sub_byte_def inv_sbox_table_def mul14_def mul11_def mul13_def mul9_def
  xtime_def

lemmas text_eval =
  clean_text_def printable_def js_trim_def is_js_whitespace_def

lemma field_A_offset: "parseInt10 (char_at0 (js ''0xxxxxxxxxxxxxxx8BKWIFRA6ROAx2VxPis6VoF9J81Ef58Td6J509JOy6M'')) = Some 0"
  by (simp add: char_at0_def parseInt10_def js_def)

lemma field_A_ciphertext:
  "ciphertext_of (js ''0xxxxxxxxxxxxxxx8BKWIFRA6ROAx2VxPis6VoF9J81Ef58Td6J509JOy6M'') 0 =
     [0xf0, 0x12, 0x96, 0x20, 0x54, 0x40, 0xe9, 0x13, 0x80, 0xc7, 0x65, 0x71, 0x3e, 0x2b, 0x3a, 0x56, 0x81, 0x7d, 0x27, 0xcd, 0x44, 0x7f, 0x9f, 0x13, 0x77, 0xa2, 0x79, 0xd3, 0xd2, 0x4e, 0xcb, 0xa3]"
  by (simp add: ciphertext_of_def paddedB64_def ciphertextB64_def substring_from_def js_def base64_decode_def
      unbase64_def)

lemma field_A_decrypted:
  "decipher_update
     [0xf0, 0x12, 0x96, 0x20, 0x54, 0x40, 0xe9, 0x13, 0x80, 0xc7, 0x65, 0x71, 0x3e, 0x2b, 0x3a, 0x56, 0x81, 0x7d, 0x27, 0xcd, 0x44, 0x7f, 0x9f, 0x13, 0x77, 0xa2, 0x79, 0xd3, 0xd2, 0x4e, 0xcb, 0xa3] =
     [0x6a, 0x75, 0x6e, 0x6b, 0x23, 0x23, 0x23, 0x68, 0x6c, 0x73, 0x2f, 0x61, 0x62, 0x63, 0x2f, 0x64, 0x65, 0x66, 0x2e, 0x6d, 0x33, 0x75, 0x38, 0x00, 0x00, 0x00, 0x00, 0x00, 0x00, 0x00, 0x00, 0x00]"
  unfolding decipher_update_def round_keys_eval
  by (simp add: cbc_decrypt.simps IV_def ascii_bytes_def aes_eval)

lemma field_A_sanitized:
  "sanitized_text (js ''0xxxxxxxxxxxxxxx8BKWIFRA6ROAx2VxPis6VoF9J81Ef58Td6J509JOy6M'') = Some (js ''junk###hls/abc/def.m3u8'')"
proof -
  have "sanitized_text (js ''0xxxxxxxxxxxxxxx8BKWIFRA6ROAx2VxPis6VoF9J81Ef58Td6J509JOy6M'')
          = Some (clean_text (utf8_decode
              [0x6a, 0x75, 0x6e, 0x6b, 0x23, 0x23, 0x23, 0x68, 0x6c, 0x73, 0x2f, 0x61, 0x62, 0x63, 0x2f, 0x64, 0x65, 0x66, 0x2e, 0x6d, 0x33, 0x75, 0x38, 0x00, 0x00, 0x00, 0x00, 0x00, 0x00, 0x00, 0x00, 0x00]))"
    by (simp add: sanitized_text_def field_A_offset field_A_ciphertext decrypt_bytes_def
        decipher_final_def field_A_decrypted)
  then show ?thesis by (simp add: text_eval js_def)
qed

lemma field_B_offset: "parseInt10 (char_at0 (js ''3xxxxxxxxxxxxxxxxxxyy9VeIpEE2+r+eDkno3DeEs2ApVIMpJxh6lia2eyadM'')) = Some 3"
  by (simp add: char_at0_def parseInt10_def js_def)

lemma field_B_ciphertext:
  "ciphertext_of (js ''3xxxxxxxxxxxxxxxxxxyy9VeIpEE2+r+eDkno3DeEs2ApVIMpJxh6lia2eyadM'') 3 =
     [0xcb, 0x2f, 0x55, 0x78, 0x8a, 0x44, 0x13, 0x6f, 0xab, 0xf9, 0xe0, 0xe4, 0x9e, 0x8d, 0xc3, 0x78, 0x4b, 0x36, 0x02, 0x95, 0x48, 0x32, 0x92, 0x71, 0x87, 0xa9, 0x62, 0x6b, 0x67, 0xb2, 0x69, 0xd3]"
  by (simp add: ciphertext_of_def paddedB64_def ciphertextB64_def substring_from_def js_def base64_decode_def
      unbase64_def)

lemma field_B_decrypted:
  "decipher_update
     [0xcb, 0x2f, 0x55, 0x78, 0x8a, 0x44, 0x13, 0x6f, 0xab, 0xf9, 0xe0, 0xe4, 0x9e, 0x8d, 0xc3, 0x78, 0x4b, 0x36, 0x02, 0x95, 0x48, 0x32, 0x92, 0x71, 0x87, 0xa9, 0x62, 0x6b, 0x67, 0xb2, 0x69, 0xd3] =
     [0x6a, 0x75, 0x6e, 0x6b, 0x23, 0x23, 0x23, 0x2f, 0x68, 0x6c, 0x73, 0x2f, 0x61, 0x62, 0x63, 0x2f, 0x64, 0x65, 0x66, 0x2e, 0x6d, 0x33, 0x75, 0x38, 0x00, 0x00, 0x00, 0x00, 0x00, 0x00, 0x00, 0x00]"
  unfolding decipher_update_def round_keys_eval
  by (simp add: cbc_decrypt.simps IV_def ascii_bytes_def aes_eval)

lemma field_B_sanitized:
  "sanitized_text (js ''3xxxxxxxxxxxxxxxxxxyy9VeIpEE2+r+eDkno3DeEs2ApVIMpJxh6lia2eyadM'') = Some (js ''junk###/hls/abc/def.m3u8'')"
proof -
  have "sanitized_text (js ''3xxxxxxxxxxxxxxxxxxyy9VeIpEE2+r+eDkno3DeEs2ApVIMpJxh6lia2eyadM'')
          = Some (clean_text (utf8_decode
              [0x6a, 0x75, 0x6e, 0x6b, 0x23, 0x23, 0x23, 0x2f, 0x68, 0x6c, 0x73, 0x2f, 0x61, 0x62, 0x63, 0x2f, 0x64, 0x65, 0x66, 0x2e, 0x6d, 0x33, 0x75, 0x38, 0x00, 0x00, 0x00, 0x00, 0x00, 0x00, 0x00, 0x00]))"
    by (simp add: sanitized_text_def field_B_offset field_B_ciphertext decrypt_bytes_def
        decipher_final_def field_B_decrypted)
  then show ?thesis by (simp add: text_eval js_def)
qed

lemma field_B_url:
  "decryptStreamPath (js ''3xxxxxxxxxxxxxxxxxxyy9VeIpEE2+r+eDkno3DeEs2ApVIMpJxh6lia2eyadM'')
     = Inr (js ''https://vodhlsgaana-ebw.akamaized.net/hls/abc/def.m3u8'')"
  unfolding decrypt_via_sanitized [OF field_B_sanitized]
  by (simp add: extract_hls_def includes_str_def substring_from_def HLS_BASE_URL_def js_def)

subsection \<open>Two fields of the reference encoder\<close>

text \<open>
  The paths \<open>hls/a.ts\<close> and \<open>/hls/a.m3u8\<close>, each completed to one block with the
  padding bytes of PKCS 7, with the offset 0 and a framing of fifteen characters.
\<close>

lemmas enc_eval =
  cipher_def round_fun_def mix_columns_def mix_column_def shift_rows_def xor_bytes_def
  sub_byte_def sbox_table_def xtime_def

lemmas b64_eval =
  base64_encode_def base64_char_def base64_alphabet_def js_def

lemma encrypted_hls_only:
  "cbc_encrypt (expand_key rcon KEY) IV (ascii_bytes ''hls/a.ts'' @ [0x08, 0x08, 0x08, 0x08, 0x08, 0x08, 0x08, 0x08]) =
     [0x94, 0xa1, 0xf3, 0xa1, 0xba, 0x36, 0xb9, 0x48, 0x14, 0xcd, 0x3e, 0xc4, 0x62, 0x89, 0x72, 0xa9]"
  unfolding round_keys_eval
  by (simp add: cbc_encrypt.simps IV_def ascii_bytes_def enc_eval)

lemma encoded_hls_only:
  "reference_encode 0 (js ''xxxxxxxxxxxxxxx'') [0x08, 0x08, 0x08, 0x08, 0x08, 0x08, 0x08, 0x08] ''hls/a.ts''
     = js ''0xxxxxxxxxxxxxxxlKHzobo2uUgUzT7EYolyqQ''"
  by (simp add: reference_encode_def encrypted_hls_only) (simp add: b64_eval)

lemma encrypted_slash_hls:
  "cbc_encrypt (expand_key rcon KEY) IV (ascii_bytes ''/hls/a.m3u8'' @ [0x05, 0x05, 0x05, 0x05, 0x05]) =
     [0x1b, 0x28, 0x9a, 0xf9, 0xee, 0x76, 0x1a, 0xd7, 0x9d, 0x25, 0x26, 0xa1, 0xbc, 0x5f, 0xff, 0x68]"
  unfolding round_keys_eval
  by (simp add: cbc_encrypt.simps IV_def ascii_bytes_def enc_eval)

lemma encoded_slash_hls:
  "reference_encode 0 (js ''xxxxxxxxxxxxxxx'') [0x05, 0x05, 0x05, 0x05, 0x05] ''/hls/a.m3u8''
     = js ''0xxxxxxxxxxxxxxxGyia+e52GtedJSahvF//aA''"
  by (simp add: reference_encode_def encrypted_slash_hls) (simp add: b64_eval)

section \<open>The claims\<close>


text \<open>
  C1 (as amended). For every input for which the decoder reaches a sanitized text: if the
  text contains \<open>/hls/\<close>, then the decoder succeeds, and the URL is the base host followed
  by the part of the text that starts at the first occurrence of \<open>hls/\<close>; if the text
  does not contain \<open>/hls/\<close>, the decoder fails with \<open>MarkerNotFound\<close>.
\<close>

theorem hls_marker_extraction:
  assumes "sanitized_text x = Some t"
  shows "((\<exists>a b. t = a @ js ''/hls/'' @ b) \<longrightarrow>
            (\<exists>pre suf. t = pre @ js ''hls/'' @ suf
               \<and> (\<forall>k<length pre. take 4 (drop k t) \<noteq> js ''hls/'')
               \<and> decode x = Inr (HLS_BASE_URL @ js ''hls/'' @ suf)))
       \<and> (\<not> (\<exists>a b. t = a @ js ''/hls/'' @ b) \<longrightarrow> decode x = Inl MarkerNotFound)"
proof (intro conjI impI)
  assume "\<exists>a b. t = a @ js ''/hls/'' @ b"
  from extract_hls_found [OF this] obtain pre suf
    where "t = pre @ js ''hls/'' @ suf"
      and "\<forall>k<length pre. take 4 (drop k t) \<noteq> js ''hls/''"
      and "extract_hls t = Inr (HLS_BASE_URL @ js ''hls/'' @ suf)"
    by blast
  moreover from this(3) have "decode x = Inr (HLS_BASE_URL @ js ''hls/'' @ suf)"
    by (simp add: decode_def decrypt_via_sanitized [OF assms])
  ultimately show "\<exists>pre suf. t = pre @ js ''hls/'' @ suf
       \<and> (\<forall>k<length pre. take 4 (drop k t) \<noteq> js ''hls/'')
       \<and> decode x = Inr (HLS_BASE_URL @ js ''hls/'' @ suf)"
    by blast
next
  assume "\<not> (\<exists>a b. t = a @ js ''/hls/'' @ b)"
  from extract_hls_missing [OF this] show "decode x = Inl MarkerNotFound"
    by (simp add: decode_def decrypt_via_sanitized [OF assms])
qed

text \<open>
  The second field: its sanitized text \<open>junk###/hls/abc/def.m3u8\<close> contains \<open>/hls/\<close>, and
  the URL is the host followed by \<open>hls/abc/def.m3u8\<close>.
\<close>

theorem hls_marker_extraction_witness:
  "sanitized_text (js ''3xxxxxxxxxxxxxxxxxxyy9VeIpEE2+r+eDkno3DeEs2ApVIMpJxh6lia2eyadM'') = Some (js ''junk###/hls/abc/def.m3u8'')
   \<and> (\<exists>pre suf. js ''junk###/hls/abc/def.m3u8'' = pre @ js ''hls/'' @ suf
         \<and> decode (js ''3xxxxxxxxxxxxxxxxxxyy9VeIpEE2+r+eDkno3DeEs2ApVIMpJxh6lia2eyadM'') = Inr (HLS_BASE_URL @ js ''hls/'' @ suf))
   \<and> decode (js ''3xxxxxxxxxxxxxxxxxxyy9VeIpEE2+r+eDkno3DeEs2ApVIMpJxh6lia2eyadM'') = Inr (js ''https://vodhlsgaana-ebw.akamaized.net/hls/abc/def.m3u8'')"
proof -
  have occ: "\<exists>a b. js ''junk###/hls/abc/def.m3u8'' = a @ js ''/hls/'' @ b"
  proof (intro exI)
    show "js ''junk###/hls/abc/def.m3u8'' = js ''junk###'' @ js ''/hls/'' @ js ''abc/def.m3u8''"
      by (simp add: js_def)
  qed
  from hls_marker_extraction [OF field_B_sanitized] occ
  have "\<exists>pre suf. js ''junk###/hls/abc/def.m3u8'' = pre @ js ''hls/'' @ suf
         \<and> decode (js ''3xxxxxxxxxxxxxxxxxxyy9VeIpEE2+r+eDkno3DeEs2ApVIMpJxh6lia2eyadM'') = Inr (HLS_BASE_URL @ js ''hls/'' @ suf)"
    by blast
  moreover have "decode (js ''3xxxxxxxxxxxxxxxxxxyy9VeIpEE2+r+eDkno3DeEs2ApVIMpJxh6lia2eyadM'') = Inr (js ''https://vodhlsgaana-ebw.akamaized.net/hls/abc/def.m3u8'')"
    by (simp add: decode_def field_B_url)
  ultimately show ?thesis using field_B_sanitized by blast
qed

text \<open>
  The claim as stated fails on the first field: its sanitized text
  \<open>junk###hls/abc/def.m3u8\<close> contains \<open>hls/\<close>, and the decoder fails.
\<close>

theorem hls_without_leading_slash_fails:
  "sanitized_text (js ''0xxxxxxxxxxxxxxx8BKWIFRA6ROAx2VxPis6VoF9J81Ef58Td6J509JOy6M'') = Some (js ''junk###hls/abc/def.m3u8'')
   \<and> decode (js ''0xxxxxxxxxxxxxxx8BKWIFRA6ROAx2VxPis6VoF9J81Ef58Td6J509JOy6M'') = Inl MarkerNotFound"
proof -
  have "decryptStreamPath (js ''0xxxxxxxxxxxxxxx8BKWIFRA6ROAx2VxPis6VoF9J81Ef58Td6J509JOy6M'') = Inl NoHlsPath"
    unfolding decrypt_via_sanitized [OF field_A_sanitized]
    by (simp add: extract_hls_def includes_str_def js_def)
  then show ?thesis using field_A_sanitized by (simp add: decode_def)
qed

text \<open>
  C2 (as amended). Let the path consist of printable ASCII characters and neither start
  nor end with a space, and let the reference encoder complete it to whole blocks with
  bytes below 32, for any offset digit and any framing of \<open>offset + 15\<close> characters.
  Then the sanitized text that the decoder computes for the field is the path exactly.
  If the path contains \<open>/hls/\<close>, the decoder returns the base host followed by the part
  of the path that starts at its first \<open>hls/\<close>; if it does not, the decoder fails with
  \<open>MarkerNotFound\<close>.
\<close>

theorem reference_round_trip:
  assumes "offset \<le> 9" and "length framing = offset + 15"
    and "\<forall>c\<in>set path. 32 \<le> (of_char c :: nat) \<and> (of_char c :: nat) \<le> 126"
    and "path \<noteq> [] \<longrightarrow> hd path \<noteq> CHR '' '' \<and> last path \<noteq> CHR '' ''"
    and "\<forall>b\<in>set pad. b < 32"
    and "(length path + length pad) mod 16 = 0"
  shows "sanitized_text (reference_encode offset framing pad path) = Some (js path)
       \<and> ((\<exists>a b. js path = a @ js ''/hls/'' @ b) \<longrightarrow>
            (\<exists>pre suf. js path = pre @ js ''hls/'' @ suf
               \<and> (\<forall>k<length pre. take 4 (drop k (js path)) \<noteq> js ''hls/'')
               \<and> decode (reference_encode offset framing pad path)
                   = Inr (HLS_BASE_URL @ js ''hls/'' @ suf)))
       \<and> (\<not> (\<exists>a b. js path = a @ js ''/hls/'' @ b) \<longrightarrow>
            decode (reference_encode offset framing pad path) = Inl MarkerNotFound)"
proof -
  let ?x = "reference_encode offset framing pad path"
  have s: "sanitized_text ?x = Some (js path)"
    using assms by (rule sanitized_reference_encode)
  then have d: "decode ?x = (case extract_hls (js path) of Inl w \<Rightarrow> Inl (failure_kind w)
                             | Inr u \<Rightarrow> Inr u)"
    by (simp add: decode_def decrypt_via_sanitized)
  show ?thesis
  proof (intro conjI impI)
    show "sanitized_text ?x = Some (js path)" by (rule s)
  next
    assume "\<exists>a b. js path = a @ js ''/hls/'' @ b"
    from extract_hls_found [OF this] d
    show "\<exists>pre suf. js path = pre @ js ''hls/'' @ suf
               \<and> (\<forall>k<length pre. take 4 (drop k (js path)) \<noteq> js ''hls/'')
               \<and> decode ?x = Inr (HLS_BASE_URL @ js ''hls/'' @ suf)"
      by auto
  next
    assume "\<not> (\<exists>a b. js path = a @ js ''/hls/'' @ b)"
    from extract_hls_missing [OF this] d
    show "decode ?x = Inl MarkerNotFound" by simp
  qed
qed

text \<open>
  The path \<open>junk###/hls/abc/def.m3u8\<close> with eight padding bytes 8, the offset 3 and a
  framing of eighteen characters.
\<close>

theorem reference_round_trip_witness:
  "sanitized_text
     (reference_encode 3 (js ''xxxxxxxxxxxxxxxxxx'') [8, 8, 8, 8, 8, 8, 8, 8] ''junk###/hls/abc/def.m3u8'')
     = Some (js ''junk###/hls/abc/def.m3u8'')
   \<and> decode
       (reference_encode 3 (js ''xxxxxxxxxxxxxxxxxx'') [8, 8, 8, 8, 8, 8, 8, 8] ''junk###/hls/abc/def.m3u8'')
     = Inr (js ''https://vodhlsgaana-ebw.akamaized.net/hls/abc/def.m3u8'')"
proof -
  let ?x = "reference_encode 3 (js ''xxxxxxxxxxxxxxxxxx'') [8, 8, 8, 8, 8, 8, 8, 8] ''junk###/hls/abc/def.m3u8''"
  have 1: "(3 :: nat) \<le> 9" by simp
  have 2: "length (js ''xxxxxxxxxxxxxxxxxx'') = 3 + 15" by (simp add: js_def)
  have 3: "\<forall>c\<in>set ''junk###/hls/abc/def.m3u8''. 32 \<le> (of_char c :: nat) \<and> (of_char c :: nat) \<le> 126"
    by simp
  have 4: "''junk###/hls/abc/def.m3u8'' \<noteq> [] \<longrightarrow> hd ''junk###/hls/abc/def.m3u8'' \<noteq> CHR '' '' \<and> last ''junk###/hls/abc/def.m3u8'' \<noteq> CHR '' ''"
    by simp
  have 5: "\<forall>b\<in>set [8, 8, 8, 8, 8, 8, 8, 8 :: byte]. b < 32" by simp
  have 6: "(length ''junk###/hls/abc/def.m3u8'' + length [8, 8, 8, 8, 8, 8, 8, 8 :: byte]) mod 16 = 0" by simp
  from reference_round_trip [OF 1 2 3 4 5 6]
  have s: "sanitized_text ?x = Some (js ''junk###/hls/abc/def.m3u8'')" by blast
  have "extract_hls (js ''junk###/hls/abc/def.m3u8'') = Inr (js ''https://vodhlsgaana-ebw.akamaized.net/hls/abc/def.m3u8'')"
    by (simp add: extract_hls_def includes_str_def substring_from_def HLS_BASE_URL_def js_def)
  then have "decode ?x = Inr (js ''https://vodhlsgaana-ebw.akamaized.net/hls/abc/def.m3u8'')"
    by (simp add: decode_def decrypt_via_sanitized [OF s])
  with s show ?thesis by blast
qed

text \<open>
  The claim as stated fails on both fields of the reference encoder: for the path
  \<open>hls/a.ts\<close> the decoder fails, and for the path \<open>/hls/a.m3u8\<close> it returns the host
  followed by \<open>hls/a.m3u8\<close>, which is not the path.
\<close>

theorem reference_path_not_recovered:
  "reference_encode 0 (js ''xxxxxxxxxxxxxxx'') [0x08, 0x08, 0x08, 0x08, 0x08, 0x08, 0x08, 0x08] ''hls/a.ts'' = js ''0xxxxxxxxxxxxxxxlKHzobo2uUgUzT7EYolyqQ''
   \<and> decode (js ''0xxxxxxxxxxxxxxxlKHzobo2uUgUzT7EYolyqQ'') = Inl MarkerNotFound
   \<and> reference_encode 0 (js ''xxxxxxxxxxxxxxx'') [0x05, 0x05, 0x05, 0x05, 0x05] ''/hls/a.m3u8'' = js ''0xxxxxxxxxxxxxxxGyia+e52GtedJSahvF//aA''
   \<and> decode (js ''0xxxxxxxxxxxxxxxGyia+e52GtedJSahvF//aA'') = Inr (js ''https://vodhlsgaana-ebw.akamaized.net/hls/a.m3u8'')"
proof -
  have f: "length (js ''xxxxxxxxxxxxxxx'') = 0 + 15" by (simp add: js_def)
  have "sanitized_text (reference_encode 0 (js ''xxxxxxxxxxxxxxx'') [0x08, 0x08, 0x08, 0x08, 0x08, 0x08, 0x08, 0x08] ''hls/a.ts'') = Some (js ''hls/a.ts'')"
    by (rule sanitized_reference_encode [OF _ f]) simp_all
  then have s1: "sanitized_text (js ''0xxxxxxxxxxxxxxxlKHzobo2uUgUzT7EYolyqQ'') = Some (js ''hls/a.ts'')"
    by (simp only: encoded_hls_only)
  have "extract_hls (js ''hls/a.ts'') = Inl NoHlsPath"
    by (simp add: extract_hls_def includes_str_def js_def)
  then have d1: "decode (js ''0xxxxxxxxxxxxxxxlKHzobo2uUgUzT7EYolyqQ'') = Inl MarkerNotFound"
    by (simp add: decode_def decrypt_via_sanitized [OF s1])
  have "sanitized_text (reference_encode 0 (js ''xxxxxxxxxxxxxxx'') [0x05, 0x05, 0x05, 0x05, 0x05] ''/hls/a.m3u8'') = Some (js ''/hls/a.m3u8'')"
    by (rule sanitized_reference_encode [OF _ f]) simp_all
  then have s2: "sanitized_text (js ''0xxxxxxxxxxxxxxxGyia+e52GtedJSahvF//aA'') = Some (js ''/hls/a.m3u8'')"
    by (simp only: encoded_slash_hls)
  have "extract_hls (js ''/hls/a.m3u8'') = Inr (js ''https://vodhlsgaana-ebw.akamaized.net/hls/a.m3u8'')"
    by (simp add: extract_hls_def includes_str_def substring_from_def HLS_BASE_URL_def js_def)
  then have d2: "decode (js ''0xxxxxxxxxxxxxxxGyia+e52GtedJSahvF//aA'') = Inr (js ''https://vodhlsgaana-ebw.akamaized.net/hls/a.m3u8'')"
    by (simp add: decode_def decrypt_via_sanitized [OF s2])
  from d1 d2 show ?thesis by (simp only: encoded_hls_only encoded_slash_hls simp_thms)
qed

text \<open>
  C3 (as amended). For every input with a digit in front: when the number of bytes of the
  decoded payload is not a multiple of 16, the cipher throws in its last step, the
  \<open>catch\<close> branch is taken, and the decoder fails with \<open>InvalidCiphertextLength\<close>; when
  the payload decodes to no byte at all, the cipher returns the empty plaintext and the
  decoder fails with \<open>MarkerNotFound\<close>.
\<close>

theorem wrong_length_fails_in_cipher:
  assumes "parseInt10 (char_at0 x) = Some offset"
  shows "(length (ciphertext_of x offset) mod 16 \<noteq> 0 \<longrightarrow>
            decrypt_bytes (ciphertext_of x offset) = Inl WrongFinalBlockLength
            \<and> decryptStreamPath x = Inl (FailedToDecrypt WrongFinalBlockLength)
            \<and> decode x = Inl InvalidCiphertextLength)
       \<and> (ciphertext_of x offset = [] \<longrightarrow>
            decrypt_bytes (ciphertext_of x offset) = Inr [] \<and> decode x = Inl MarkerNotFound)"
proof (intro conjI impI)
  assume l: "length (ciphertext_of x offset) mod 16 \<noteq> 0"
  then show "decrypt_bytes (ciphertext_of x offset) = Inl WrongFinalBlockLength"
    by (simp add: decrypt_bytes_def decipher_final_def)
  from wrong_length [OF assms l]
  show "decryptStreamPath x = Inl (FailedToDecrypt WrongFinalBlockLength)" .
  then show "decode x = Inl InvalidCiphertextLength" by (simp add: decode_def)
next
  assume e: "ciphertext_of x offset = []"
  then show "decrypt_bytes (ciphertext_of x offset) = Inr []"
    by (simp add: decrypt_bytes_def decipher_final_def decipher_update_def cbc_decrypt_Nil)
  from empty_payload [OF assms e] show "decode x = Inl MarkerNotFound"
    by (simp add: decode_def)
qed

text \<open>A payload of 15 bytes, and an input that ends with its framing.\<close>

theorem wrong_length_fails_in_cipher_witness:
  "length (ciphertext_of (js ''0xxxxxxxxxxxxxxxAAAAAAAAAAAAAAAAAAAA'') 0) = 15
   \<and> decode (js ''0xxxxxxxxxxxxxxxAAAAAAAAAAAAAAAAAAAA'') = Inl InvalidCiphertextLength
   \<and> ciphertext_of (js ''2xxxxxxxxxxxxxxxxx'') 2 = []
   \<and> decode (js ''2xxxxxxxxxxxxxxxxx'') = Inl MarkerNotFound"
proof -
  have o1: "parseInt10 (char_at0 (js ''0xxxxxxxxxxxxxxxAAAAAAAAAAAAAAAAAAAA'')) = Some 0"
    by (simp add: char_at0_def parseInt10_def js_def)
  have l1: "length (ciphertext_of (js ''0xxxxxxxxxxxxxxxAAAAAAAAAAAAAAAAAAAA'') 0) = 15"
    by (simp add: ciphertext_of_def paddedB64_def ciphertextB64_def substring_from_def js_def
        base64_decode_def unbase64_def)
  have o2: "parseInt10 (char_at0 (js ''2xxxxxxxxxxxxxxxxx'')) = Some 2"
    by (simp add: char_at0_def parseInt10_def js_def)
  have l2: "ciphertext_of (js ''2xxxxxxxxxxxxxxxxx'') 2 = []"
    by (simp add: ciphertext_of_def paddedB64_def ciphertextB64_def substring_from_def js_def
        base64_decode_def unbase64_def)
  from wrong_length_fails_in_cipher [OF o1] l1
  have "decode (js ''0xxxxxxxxxxxxxxxAAAAAAAAAAAAAAAAAAAA'') = Inl InvalidCiphertextLength" by simp
  moreover from wrong_length_fails_in_cipher [OF o2] l2
  have "decode (js ''2xxxxxxxxxxxxxxxxx'') = Inl MarkerNotFound" by simp
  ultimately show ?thesis using l1 l2 by simp
qed

text \<open>
  The claim as stated fails where the payload is empty: 0 bytes are not a positive
  multiple of 16, the cipher is used and returns the empty plaintext, and the failure is
  \<open>MarkerNotFound\<close>.
\<close>

theorem empty_ciphertext_is_not_a_length_failure:
  "parseInt10 (char_at0 (js ''0xxxxxxxxxxxxxxx'')) = Some 0
   \<and> length (ciphertext_of (js ''0xxxxxxxxxxxxxxx'') 0) = 0
   \<and> decrypt_bytes (ciphertext_of (js ''0xxxxxxxxxxxxxxx'') 0) = Inr []
   \<and> decode (js ''0xxxxxxxxxxxxxxx'') = Inl MarkerNotFound"
proof -
  have o: "parseInt10 (char_at0 (js ''0xxxxxxxxxxxxxxx'')) = Some 0"
    by (simp add: char_at0_def parseInt10_def js_def)
  have l: "ciphertext_of (js ''0xxxxxxxxxxxxxxx'') 0 = []"
    by (simp add: ciphertext_of_def paddedB64_def ciphertextB64_def substring_from_def js_def
        base64_decode_def unbase64_def)
  have "decrypt_bytes [] = Inr []"
    by (simp add: decrypt_bytes_def decipher_final_def decipher_update_def cbc_decrypt_Nil)
  with empty_payload [OF o l] o l show ?thesis by (simp add: decode_def)
qed

text \<open>
  C4 (as amended). For every input whose first character is a digit \<open>offset\<close>: if
  \<open>offset + 16\<close> exceeds the length of the input, the payload is empty and the decoder
  fails with \<open>MarkerNotFound\<close>.
\<close>

theorem short_input_empty_payload:
  assumes "parseInt10 (char_at0 x) = Some offset" and "length x < offset + 16"
  shows "ciphertextB64 x offset = [] \<and> decode x = Inl MarkerNotFound"
proof -
  from assms(2) have e: "ciphertextB64 x offset = []"
    by (simp add: ciphertextB64_def substring_from_def)
  then have "ciphertext_of x offset = []"
    by (simp add: ciphertext_of_def paddedB64_def base64_decode_pad [of "[]", simplified] base64_decode_Nil)
  from empty_payload [OF assms(1) this] e show ?thesis by (simp add: decode_def)
qed


text \<open>The input \<open>9\<close>: 25 exceeds the length 1.\<close>

theorem short_input_empty_payload_witness:
  "ciphertextB64 (js ''9'') 9 = [] \<and> decode (js ''9'') = Inl MarkerNotFound"
proof -
  have o: "parseInt10 (char_at0 (js ''9'')) = Some 9"
    by (simp add: char_at0_def parseInt10_def js_def)
  have l: "length (js ''9'') < 9 + 16" by (simp add: js_def)
  from short_input_empty_payload [OF o l] show ?thesis .
qed

text \<open>
  The claim as stated fails on \<open>5abc\<close>: 21 exceeds the length 4, and the failure is not
  \<open>TruncatedPayload\<close>.
\<close>

theorem short_input_is_not_truncated_payload:
  "parseInt10 (char_at0 (js ''5abc'')) = Some 5
   \<and> length (js ''5abc'') < 5 + 16
   \<and> decode (js ''5abc'') = Inl MarkerNotFound
   \<and> decode (js ''5abc'') \<noteq> Inl TruncatedPayload"
proof -
  have o: "parseInt10 (char_at0 (js ''5abc'')) = Some 5"
    by (simp add: char_at0_def parseInt10_def js_def)
  have l: "ciphertext_of (js ''5abc'') 5 = []"
    by (simp add: ciphertext_of_def paddedB64_def ciphertextB64_def substring_from_def js_def
        base64_decode_def unbase64_def)
  have "length (js ''5abc'') < 5 + 16" by (simp add: js_def)
  with empty_payload [OF o l] o show ?thesis by (simp add: decode_def)
qed

text \<open>
  C5. The decoder fails with \<open>MalformedOffset\<close> on the empty string, and on every string
  whose first character is not one of the ten ASCII digits.
\<close>

theorem malformed_offset:
  assumes "x = [] \<or> hd x \<notin> set (js ''0123456789'')"
  shows "decode x = Inl MalformedOffset"
proof (cases x)
  case Nil
  then show ?thesis
    by (simp add: decode_def decryptStreamPath_def char_at0_def parseInt10_def)
next
  case (Cons c cs)
  with assms have "c \<notin> set (js ''0123456789'')" by simp
  with digit_cases [of c] have "\<not> (0x30 \<le> c \<and> c \<le> 0x39)" by blast
  then have "parseInt10 (Some c) = None" by (simp add: parseInt10_def)
  with Cons show ?thesis
    by (simp add: decode_def decryptStreamPath_def char_at0_def)
qed


text \<open>The empty string, and a string that starts with \<open>x\<close>.\<close>

theorem malformed_offset_witness:
  "decode [] = Inl MalformedOffset \<and> decode (js ''x8BKWIFRA6RO'') = Inl MalformedOffset"
proof -
  have "hd (js ''x8BKWIFRA6RO'') \<notin> set (js ''0123456789'')" by (simp add: js_def)
  then have "decode (js ''x8BKWIFRA6RO'') = Inl MalformedOffset"
    by (intro malformed_offset disjI2)
  moreover have "decode [] = Inl MalformedOffset"
    by (intro malformed_offset disjI1) (rule refl)
  ultimately show ?thesis by simp
qed

text \<open>
  C6. For every decoded text, the sanitized text consists of characters with codes 32 to
  126 only, and is a subsequence of the text, so that the order of the kept characters
  is the order they had. For a text made of a border of null and white space characters,
  a core that neither starts nor ends with such a character, and a border again, the
  sanitized text is exactly the characters of the core with codes 32 to 126, in order:
  the null characters and the surrounding white space are removed, and every other
  character outside 32 to 126 is dropped.
\<close>

theorem sanitize_printable_subsequence:
  "(\<forall>c\<in>set (clean_text t). 32 \<le> unat c \<and> unat c \<le> 126)
   \<and> subseq (clean_text t) t
   \<and> ((\<forall>c\<in>set (lead @ trail). c = 0 \<or> is_js_whitespace c)
        \<and> (core \<noteq> [] \<longrightarrow> hd core \<noteq> 0 \<and> \<not> is_js_whitespace (hd core)
                          \<and> last core \<noteq> 0 \<and> \<not> is_js_whitespace (last core))
      \<longrightarrow> clean_text (lead @ core @ trail) = filter (\<lambda>c. 32 \<le> unat c \<and> unat c \<le> 126) core)"
proof (intro conjI impI)
  show "\<forall>c\<in>set (clean_text t). 32 \<le> unat c \<and> unat c \<le> 126"
    by (simp add: clean_text_def printable_def)
  show "subseq (clean_text t) t" by (rule clean_text_subseq)
next
  assume h: "(\<forall>c\<in>set (lead @ trail). c = 0 \<or> is_js_whitespace c)
        \<and> (core \<noteq> [] \<longrightarrow> hd core \<noteq> 0 \<and> \<not> is_js_whitespace (hd core)
                          \<and> last core \<noteq> 0 \<and> \<not> is_js_whitespace (last core))"
  have "printable = (\<lambda>c. 32 \<le> unat c \<and> unat c \<le> 126)"
    by (rule ext) (simp add: printable_def)
  with clean_text_core [of lead trail core] h
  show "clean_text (lead @ core @ trail) = filter (\<lambda>c. 32 \<le> unat c \<and> unat c \<le> 126) core"
    by simp
qed


text \<open>
  A text with null characters, white space, control characters and U+FFFD around and
  inside \<open>a b\<close>.
\<close>

theorem sanitize_printable_subsequence_witness:
  "clean_text ([0x20, 0x00, 0x09] @ [0x61, 0x01, 0x7F, 0x20, 0xFFFD, 0x00, 0x62] @ [0x00, 0x0A])
     = [0x61, 0x20, 0x62]
   \<and> subseq (clean_text [0x20, 0x00, 0x09, 0x61, 0x01, 0x7F, 0x20, 0xFFFD, 0x00, 0x62, 0x00, 0x0A])
        [0x20, 0x00, 0x09, 0x61, 0x01, 0x7F, 0x20, 0xFFFD, 0x00, 0x62, 0x00, 0x0A]"
proof -
  let ?lead = "[0x20, 0x00, 0x09] :: jsstring"
  let ?core = "[0x61, 0x01, 0x7F, 0x20, 0xFFFD, 0x00, 0x62] :: jsstring"
  let ?trail = "[0x00, 0x0A] :: jsstring"
  have b: "\<forall>c\<in>set (?lead @ ?trail). c = 0 \<or> is_js_whitespace c"
    by (simp add: is_js_whitespace_def)
  have c: "?core \<noteq> [] \<longrightarrow> hd ?core \<noteq> 0 \<and> \<not> is_js_whitespace (hd ?core)
                          \<and> last ?core \<noteq> 0 \<and> \<not> is_js_whitespace (last ?core)"
    by (simp add: is_js_whitespace_def)
  from sanitize_printable_subsequence [of _ ?lead ?trail ?core] b c
  have "clean_text (?lead @ ?core @ ?trail)
          = filter (\<lambda>c. 32 \<le> unat c \<and> unat c \<le> 126) ?core"
    by blast
  then have "clean_text (?lead @ ?core @ ?trail) = [0x61, 0x20, 0x62]" by simp
  moreover from sanitize_printable_subsequence
  have "subseq (clean_text [0x20, 0x00, 0x09, 0x61, 0x01, 0x7F, 0x20, 0xFFFD, 0x00, 0x62, 0x00, 0x0A])
        [0x20, 0x00, 0x09, 0x61, 0x01, 0x7F, 0x20, 0xFFFD, 0x00, 0x62, 0x00, 0x0A]"
    by blast
  ultimately show ?thesis by blast
qed



text \<open>
  C8. The decoder returns for every input: either a failure, for which the caller
  receives the empty string, or a URL that starts with the base host. The error thrown by
  the cipher is caught and is one of the failures.
\<close>

theorem decode_always_returns:
  "(\<exists>f. decode x = Inl f \<and> returned (decryptStreamPath x) = [])
   \<or> (\<exists>path. decode x = Inr (HLS_BASE_URL @ path)
          \<and> returned (decryptStreamPath x) = HLS_BASE_URL @ path)"
  using decryptStreamPath_cases [of x] by (auto simp: decode_def returned_def)

text \<open>
  C9. Let the transport answer the request for the quality \<open>high\<close> with an envelope. If
  its \<open>api_status\<close> is \<open>success\<close> and its \<open>stream_path\<close> is a non-empty string that the
  decoder turns into a URL, then \<open>fetchStreamUrl\<close> returns a \<open>MediaUrl\<close> with the quality
  \<open>high\<close> and that URL. If its \<open>api_status\<close> is not \<open>success\<close>, \<open>fetchStreamUrl\<close> returns
  no result.
\<close>

theorem fetch_high_quality:
  assumes "send \<lparr>req_quality = js ''high'', req_track_id = trackId,
                  req_stream_format = js ''mp4''\<rparr> = Inr env"
  shows "(api_status env = Some (js ''success'') \<and> data env = Some d \<and> stream_path d = Some sp
            \<and> sp \<noteq> [] \<and> decode sp = Inr u
          \<longrightarrow> (\<exists>m. fst (fetchStreamUrl send trackId high log) = Some m
                 \<and> quality m = js ''high'' \<and> url m = u))
       \<and> (api_status env \<noteq> Some (js ''success'')
          \<longrightarrow> fst (fetchStreamUrl send trackId high log) = None)"
proof (intro conjI impI)
  assume h: "api_status env = Some (js ''success'') \<and> data env = Some d \<and> stream_path d = Some sp
            \<and> sp \<noteq> [] \<and> decode sp = Inr u"
  with decode_Inr [of sp u] have "decryptStreamPath sp = Inr u" and "u \<noteq> []" by simp_all
  with h assms show "\<exists>m. fst (fetchStreamUrl send trackId high log) = Some m
                 \<and> quality m = js ''high'' \<and> url m = u"
    by (simp add: fetchStreamUrl_def Let_def returned_def)
next
  assume "api_status env \<noteq> Some (js ''success'')"
  with assms show "fst (fetchStreamUrl send trackId high log) = None"
    by (simp add: fetchStreamUrl_def Let_def split: option.splits)
qed


text \<open>
  A transport that answers with the second encrypted field, and one that answers with
  the status \<open>failure\<close>.
\<close>

theorem fetch_high_quality_witness:
  "(\<exists>m. fst (fetchStreamUrl
              (\<lambda>r. Inr \<lparr>api_status = Some (js ''success''),
                         data = Some \<lparr>stream_path = Some (js ''3xxxxxxxxxxxxxxxxxxyy9VeIpEE2+r+eDkno3DeEs2ApVIMpJxh6lia2eyadM''),
                                      bit_rate = Some (js ''128''), track_format = None\<rparr>\<rparr>)
              (js ''12345'') high []) = Some m
         \<and> quality m = js ''high''
         \<and> url m = js ''https://vodhlsgaana-ebw.akamaized.net/hls/abc/def.m3u8'')
   \<and> fst (fetchStreamUrl (\<lambda>r. Inr \<lparr>api_status = Some (js ''failure''), data = None\<rparr>)
              (js ''12345'') high []) = None"
proof -
  let ?d = "\<lparr>stream_path = Some (js ''3xxxxxxxxxxxxxxxxxxyy9VeIpEE2+r+eDkno3DeEs2ApVIMpJxh6lia2eyadM''),
            bit_rate = Some (js ''128''), track_format = None\<rparr>"
  let ?env = "\<lparr>api_status = Some (js ''success''), data = Some ?d\<rparr>"
  let ?bad = "\<lparr>api_status = Some (js ''failure''), data = None\<rparr> :: envelope"
  have ne: "js ''3xxxxxxxxxxxxxxxxxxyy9VeIpEE2+r+eDkno3DeEs2ApVIMpJxh6lia2eyadM'' \<noteq> []"
    by (simp add: js_def)
  have dec: "decode (js ''3xxxxxxxxxxxxxxxxxxyy9VeIpEE2+r+eDkno3DeEs2ApVIMpJxh6lia2eyadM'')
               = Inr (js ''https://vodhlsgaana-ebw.akamaized.net/hls/abc/def.m3u8'')"
    by (simp add: decode_def field_B_url)
  have "\<exists>m. fst (fetchStreamUrl (\<lambda>r. Inr ?env) (js ''12345'') high []) = Some m
         \<and> quality m = js ''high''
         \<and> url m = js ''https://vodhlsgaana-ebw.akamaized.net/hls/abc/def.m3u8''"
    using fetch_high_quality [of "\<lambda>r. Inr ?env" "js ''12345''" ?env ?d
        "js ''3xxxxxxxxxxxxxxxxxxyy9VeIpEE2+r+eDkno3DeEs2ApVIMpJxh6lia2eyadM''"
        "js ''https://vodhlsgaana-ebw.akamaized.net/hls/abc/def.m3u8''" "[]"] ne dec
    by simp
  moreover have "js ''failure'' \<noteq> js ''success''" by (simp add: js_def)
  then have "fst (fetchStreamUrl (\<lambda>r. Inr ?bad) (js ''12345'') high []) = None"
    using fetch_high_quality [of "\<lambda>r. Inr ?bad" "js ''12345''" ?bad] by simp
  ultimately show ?thesis by blast
qed

text \<open>
  C10. For every track and every transport, \<open>getMediaUrls\<close> returns at most one element,
  every element has the quality \<open>high\<close>, and exactly one request is made, for the quality
  \<open>high\<close>: none for \<open>medium\<close> or \<open>low\<close>.
\<close>

theorem media_urls_only_high:
  assumes "getMediaUrls send trackId log = (rs, log')"
  shows "length rs \<le> 1 \<and> (\<forall>m\<in>set rs. quality m = js ''high'')
       \<and> log' = log @ [\<lparr>req_quality = js ''high'', req_track_id = trackId,
                          req_stream_format = js ''mp4''\<rparr>]"
proof -
  obtain r l where f: "fetchStreamUrl send trackId high log = (r, l)"
    by (cases "fetchStreamUrl send trackId high log")
  from fetchStreamUrl_log [of send trackId high log] f
  have l: "l = log @ [\<lparr>req_quality = js ''high'', req_track_id = trackId,
                          req_stream_format = js ''mp4''\<rparr>]" by simp
  show ?thesis
  proof (cases r)
    case None
    with assms f l show ?thesis by (simp add: getMediaUrls_def)
  next
    case (Some m)
    with fetchStreamUrl_quality [of send trackId high log m] f
    have "quality m = js ''high''" by simp
    with Some assms f l show ?thesis by (auto simp: getMediaUrls_def)
  qed
qed


text \<open>The transport that answers with the second encrypted field: one element, one request.\<close>

theorem media_urls_only_high_witness:
  "fst (getMediaUrls
          (\<lambda>r. Inr \<lparr>api_status = Some (js ''success''),
                     data = Some \<lparr>stream_path = Some (js ''3xxxxxxxxxxxxxxxxxxyy9VeIpEE2+r+eDkno3DeEs2ApVIMpJxh6lia2eyadM''),
                                  bit_rate = None, track_format = Some (js ''mp4_aac'')\<rparr>\<rparr>)
          (js ''12345'') [])
     = [\<lparr>quality = js ''high'', bitRate = [], url = js ''https://vodhlsgaana-ebw.akamaized.net/hls/abc/def.m3u8'',
         format = js ''mp4_aac''\<rparr>]
   \<and> snd (getMediaUrls
          (\<lambda>r. Inr \<lparr>api_status = Some (js ''success''),
                     data = Some \<lparr>stream_path = Some (js ''3xxxxxxxxxxxxxxxxxxyy9VeIpEE2+r+eDkno3DeEs2ApVIMpJxh6lia2eyadM''),
                                  bit_rate = None, track_format = Some (js ''mp4_aac'')\<rparr>\<rparr>)
          (js ''12345'') [])
     = [\<lparr>req_quality = js ''high'', req_track_id = js ''12345'', req_stream_format = js ''mp4''\<rparr>]"
proof -
  let ?send = "\<lambda>r :: request. (Inr \<lparr>api_status = Some (js ''success''),
                     data = Some \<lparr>stream_path = Some (js ''3xxxxxxxxxxxxxxxxxxyy9VeIpEE2+r+eDkno3DeEs2ApVIMpJxh6lia2eyadM''),
                                  bit_rate = None, track_format = Some (js ''mp4_aac'')\<rparr>\<rparr>
                 :: transport_error + envelope)"
  have ne: "js ''3xxxxxxxxxxxxxxxxxxyy9VeIpEE2+r+eDkno3DeEs2ApVIMpJxh6lia2eyadM'' \<noteq> []"
    by (simp add: js_def)
  have nf: "js ''mp4_aac'' \<noteq> []" by (simp add: js_def)
  have nu: "js ''https://vodhlsgaana-ebw.akamaized.net/hls/abc/def.m3u8'' \<noteq> []" by (simp add: js_def)
  have f: "fst (getMediaUrls ?send (js ''12345'') [])
     = [\<lparr>quality = js ''high'', bitRate = [], url = js ''https://vodhlsgaana-ebw.akamaized.net/hls/abc/def.m3u8'',
         format = js ''mp4_aac''\<rparr>]"
    using ne nf nu
    by (simp add: getMediaUrls_def fetchStreamUrl_def Let_def field_B_url returned_def or_else_def)
  obtain rs l where g: "getMediaUrls ?send (js ''12345'') [] = (rs, l)"
    by (cases "getMediaUrls ?send (js ''12345'') []")
  from media_urls_only_high [OF g] g
  have "snd (getMediaUrls ?send (js ''12345'') [])
     = [\<lparr>req_quality = js ''high'', req_track_id = js ''12345'', req_stream_format = js ''mp4''\<rparr>]"
    by simp
  with f show ?thesis by simp
qed

end
